theory Spec2Isabelle
  imports Complex_Main "HOL-Library.Product_Lexorder"
begin

section \<open>Python values and errors\<close>

text \<open>
  The exceptions that the modelled code can raise. Every function that can raise returns
  \<open>py_error + 'a\<close>, with \<open>Inl\<close> for the exception.
\<close>

datatype py_error = IndexError | KeyError | ValueError | TypeError | OverflowError

section \<open>Dates and the ISO calendar\<close>

text \<open>
  \<open>datetime.date\<close> of the Python standard library: a proleptic Gregorian date. Its
  constructor accepts exactly the triples satisfying \<open>valid_date\<close>. The functions below
  follow the reference implementation of \<open>date.isocalendar\<close> (\<open>Lib/_pydatetime.py\<close>):
  \<open>_is_leap\<close>, \<open>_days_before_year\<close>, \<open>_days_before_month\<close>, \<open>_ymd2ord\<close>,
  \<open>_isoweek1monday\<close> and \<open>isocalendar\<close>. Python's \<open>//\<close> and \<open>%\<close> on integers round
  towards minus infinity, as \<open>div\<close> and \<open>mod\<close> on \<open>int\<close> do.
\<close>

record date =
  year :: int
  month :: int
  day :: int

definition is_leap :: "int \<Rightarrow> bool" where
  "is_leap y = (y mod 4 = 0 \<and> (y mod 100 \<noteq> 0 \<or> y mod 400 = 0))"

definition days_before_year :: "int \<Rightarrow> int" where
  "days_before_year y = (let p = y - 1 in p * 365 + p div 4 - p div 100 + p div 400)"

definition DAYS_IN_MONTH :: "int list" where
  "DAYS_IN_MONTH = [-1, 31, 28, 31, 30, 31, 30, 31, 31, 30, 31, 30, 31]"

definition DAYS_BEFORE_MONTH :: "int list" where
  "DAYS_BEFORE_MONTH = [-1, 0, 31, 59, 90, 120, 151, 181, 212, 243, 273, 304, 334]"

definition days_in_month :: "int \<Rightarrow> int \<Rightarrow> int" where
  "days_in_month y m = (if m = 2 \<and> is_leap y then 29 else DAYS_IN_MONTH ! nat m)"

definition days_before_month :: "int \<Rightarrow> int \<Rightarrow> int" where
  "days_before_month y m = DAYS_BEFORE_MONTH ! nat m + (if m > 2 \<and> is_leap y then 1 else 0)"

definition valid_date :: "date \<Rightarrow> bool" where
  "valid_date d = (1 \<le> year d \<and> year d \<le> 9999 \<and> 1 \<le> month d \<and> month d \<le> 12 \<and>
                   1 \<le> day d \<and> day d \<le> days_in_month (year d) (month d))"

definition ymd2ord :: "int \<Rightarrow> int \<Rightarrow> int \<Rightarrow> int" where
  "ymd2ord y m d = days_before_year y + days_before_month y m + d"

definition isoweek1monday :: "int \<Rightarrow> int" where
  "isoweek1monday y =
     (let THURSDAY = 3;
          firstday = ymd2ord y 1 1;
          firstweekday = (firstday + 6) mod 7;
          week1monday = firstday - firstweekday
      in if firstweekday > THURSDAY then week1monday + 7 else week1monday)"

definition isocalendar :: "date \<Rightarrow> int \<times> int \<times> int" where
  "isocalendar d =
     (let y = year d;
          week1monday = isoweek1monday y;
          today = ymd2ord (year d) (month d) (day d);
          week = (today - week1monday) div 7;
          wday = (today - week1monday) mod 7
      in if week < 0 then
           (let y' = y - 1;
                week1monday' = isoweek1monday y';
                week' = (today - week1monday') div 7;
                wday' = (today - week1monday') mod 7
            in (y', week' + 1, wday' + 1))
         else if week \<ge> 52 \<and> today \<ge> isoweek1monday (y + 1) then (y + 1, 0 + 1, wday + 1)
         else (y, week + 1, wday + 1))"

section \<open>Arrays\<close>

text \<open>
  A two-dimensional numpy array is a list of rows. A cell of a grid is \<open>NaN\<close> (the
  float not-a-number), \<open>PyNone\<close> (what \<open>np.empty\<close> puts into an object array),
  \<open>Uninit\<close> (the arbitrary content \<open>np.empty\<close> leaves in a float array) or a stored
  value. The two dtypes are the ones the repository uses: the default \<open>"float64"\<close> and
  \<open>"object"\<close>.

  An assignment into an array first converts the assigned values into the dtype of the
  array, and raises where a value cannot be converted. What the conversion does depends on
  the Python type of the values, which \<open>data: List[Any]\<close> leaves open; the model takes the
  conversion of the values at hand as the function \<open>cast\<close>, from a value to the cell it
  is stored as or to the error it raises. Given below are the conversion into an object
  array (\<open>astype_object\<close>, which the month labels use for their strings), the conversion of
  a Python \<open>int\<close> into \<open>float64\<close> (\<open>float64_of_int\<close>) and what the latter is on the
  years and days of dates (\<open>float64_of_field\<close>, which the year and date labels use).
\<close>

datatype 'a cell = NaN | PyNone | Uninit | Val 'a

datatype dtype = Float64 | Object

type_synonym 'a ndarray = "'a cell list list"

definition np_empty :: "nat \<times> nat \<Rightarrow> dtype \<Rightarrow> 'a ndarray" where
  "np_empty shp dt =
     replicate (fst shp) (replicate (snd shp) (case dt of Float64 \<Rightarrow> Uninit | Object \<Rightarrow> PyNone))"

definition nan_times :: "'a ndarray \<Rightarrow> 'a ndarray" where
  \<comment> \<open>\<open>np.nan * grid\<close>: not-a-number times any float is not-a-number.\<close>
  "nan_times g = map (map (\<lambda>c. NaN)) g"

definition nd_index :: "nat \<Rightarrow> int \<Rightarrow> py_error + nat" where
  \<comment> \<open>An index into an axis of length \<open>n\<close>; negative indices count from the end.\<close>
  "nd_index n i =
     (if 0 \<le> i \<and> i < int n then Inr (nat i)
      else if - int n \<le> i \<and> i < 0 then Inr (nat (i + int n))
      else Inl IndexError)"

fun scatter ::
  "'a ndarray \<Rightarrow> int list \<Rightarrow> int list \<Rightarrow> 'a cell list \<Rightarrow> py_error + 'a ndarray" where
  "scatter g [] [] [] = Inr g"
| "scatter g (w # ws) (d # ds) (c # cs) =
     (case nd_index (length g) w of
        Inl e \<Rightarrow> Inl e
      | Inr i \<Rightarrow>
          (case nd_index (length (g ! i)) d of
             Inl e \<Rightarrow> Inl e
           | Inr j \<Rightarrow> scatter (g[i := (g ! i)[j := c]]) ws ds cs))"
| "scatter g ws ds cs = Inl IndexError"

fun cast_each :: "('v \<Rightarrow> py_error + 'c) \<Rightarrow> 'v list \<Rightarrow> py_error + 'c list" where
  \<comment> \<open>the conversion of a list of values, one by one; the first failure is raised\<close>
  "cast_each cast [] = Inr []"
| "cast_each cast (v # vs) =
     (case cast v of
        Inl e \<Rightarrow> Inl e
      | Inr c \<Rightarrow> (case cast_each cast vs of Inl e \<Rightarrow> Inl e | Inr cs \<Rightarrow> Inr (c # cs)))"

definition fancy_assign ::
  "('v \<Rightarrow> py_error + 'a cell) \<Rightarrow> 'a ndarray \<Rightarrow> int list \<Rightarrow> int list \<Rightarrow> 'v list \<Rightarrow>
   py_error + 'a ndarray" where
  \<comment> \<open>\<open>grid[rows, cols] = values\<close> with two index arrays: the values are converted into
      the dtype of the grid, broadcast to the length of the index arrays (a single value is
      repeated), then written in index order, so that a later write to the same cell
      replaces an earlier one. numpy promises no order for repeated indices; index order is
      what its implementation does.\<close>
  "fancy_assign cast g ws ds vs =
     (case cast_each cast vs of
        Inl e \<Rightarrow> Inl e
      | Inr cs \<Rightarrow>
          if length ws \<noteq> length ds then Inl IndexError
          else if length cs = length ws then scatter g ws ds cs
          else if length cs = 1 then scatter g ws ds (replicate (length ws) (hd cs))
          else Inl ValueError)"

definition astype_object :: "'a \<Rightarrow> py_error + 'a cell" where
  \<comment> \<open>into the dtype \<open>object\<close>: the array keeps the Python object itself\<close>
  "astype_object v = Inr (Val v)"

function bit_length :: "int \<Rightarrow> nat" where
  \<comment> \<open>\<open>int.bit_length\<close> of a non-negative integer\<close>
  "bit_length a = (if a \<le> 0 then 0 else Suc (bit_length (a div 2)))"
  by pat_completeness auto
termination
  by (relation "measure nat") auto

declare bit_length.simps [simp del]

definition float64_of_int :: "int \<Rightarrow> py_error + int cell" where
  \<comment> \<open>a Python \<open>int\<close> into the dtype \<open>float64\<close>; the float is written as the integer it
      equals. Up to 53 bits the conversion is exact; beyond that the integer is rounded to
      53 significant bits, ties to even, and from \<open>2 ^ 1024\<close> on \<open>OverflowError\<close> is raised.\<close>
  "float64_of_int n =
     (let a = \<bar>n\<bar>; k = bit_length a
      in if k \<le> 53 then Inr (Val n)
         else
           (let e = k - 53;
                q = a div 2 ^ e;
                r = a mod 2 ^ e;
                h = 2 ^ (e - 1);
                q' = (if h < r \<or> (r = h \<and> odd q) then q + 1 else q);
                m = q' * 2 ^ e
            in if 2 ^ 1024 \<le> m then Inl OverflowError else Inr (Val (sgn n * m))))"

definition float64_of_field :: "int \<Rightarrow> py_error + int cell" where
  \<comment> \<open>the conversion of a year or a day of a \<open>datetime.date\<close> into \<open>float64\<close>: these
      fields are at most 9999, where \<open>float64_of_int\<close> is exact and does not raise.\<close>
  "float64_of_field n = Inr (Val n)"

definition nd_T :: "'a ndarray \<Rightarrow> 'a ndarray" where
  \<comment> \<open>\<open>grid.T\<close> of a two-dimensional array with at least one row.\<close>
  "nd_T g = (case g of [] \<Rightarrow> [] | r # rs \<Rightarrow> map (\<lambda>j. map (\<lambda>row. row ! j) g) [0..<length r])"

definition nd_shape :: "'a ndarray \<Rightarrow> nat \<times> nat" where
  "nd_shape g = (length g, case g of [] \<Rightarrow> 0 | r # rs \<Rightarrow> length r)"

section \<open>The grid builder\<close>

text \<open>
  \<open>date_grid\<close> of \<open>july/helpers.py\<close>, local variable by local variable.
  \<open>np.array([])\<close> is one-dimensional, so for an empty date list the two-dimensional
  slice \<open>iso_dates[:, :2]\<close> raises \<open>IndexError\<close>. The first argument is the conversion
  that line 29 applies to the values of \<open>data\<close>.
\<close>

definition iso_dates :: "date list \<Rightarrow> (int \<times> int \<times> int) list" where
  "iso_dates dates = map isocalendar dates"

definition week_keys :: "date list \<Rightarrow> (int \<times> int) list" where
  \<comment> \<open>\<open>[tuple(row) for row in iso_dates[:, :2]]\<close>\<close>
  "week_keys dates = map (\<lambda>(y, w, d). (y, w)) (iso_dates dates)"

definition unique_weeks :: "date list \<Rightarrow> (int \<times> int) list" where
  "unique_weeks dates = sort (remdups (week_keys dates))"

definition weeknum2idx :: "date list \<Rightarrow> (int \<times> int) \<rightharpoonup> int" where
  "weeknum2idx dates =
     map_of (zip (unique_weeks dates) (map int [0..<length (unique_weeks dates)]))"

fun lookup_each :: "('k \<rightharpoonup> 'v) \<Rightarrow> 'k list \<Rightarrow> py_error + 'v list" where
  "lookup_each m [] = Inr []"
| "lookup_each m (k # ks) =
     (case m k of
        None \<Rightarrow> Inl KeyError
      | Some v \<Rightarrow> (case lookup_each m ks of Inl e \<Rightarrow> Inl e | Inr vs \<Rightarrow> Inr (v # vs)))"

definition week_coords :: "date list \<Rightarrow> py_error + int list" where
  "week_coords dates = lookup_each (weeknum2idx dates) (week_keys dates)"

definition day_coords :: "date list \<Rightarrow> int list" where
  "day_coords dates = map (\<lambda>(y, w, d). d - 1) (iso_dates dates)"

definition date_grid ::
  "('v \<Rightarrow> py_error + 'a cell) \<Rightarrow> date list \<Rightarrow> 'v list \<Rightarrow> bool \<Rightarrow> dtype \<Rightarrow>
   py_error + 'a ndarray" where
  "date_grid cast dates data flip dt =
     (if dates = [] then Inl IndexError
      else
        (case week_coords dates of
           Inl e \<Rightarrow> Inl e
         | Inr wc \<Rightarrow>
             (let dc = day_coords dates;
                  n_weeks = length (unique_weeks dates);
                  n_days = 7;
                  grid = np_empty (n_weeks, n_days) dt;
                  grid = (if dt = Float64 then nan_times grid else grid)
              in case fancy_assign cast grid wc dc data of
                   Inl e \<Rightarrow> Inl e
                 | Inr grid \<Rightarrow> Inr (if flip then nd_T grid else grid))))"

section \<open>Label placement\<close>

subsection \<open>Python's \<open>str\<close> on integers and pairs\<close>

definition digit_char :: "nat \<Rightarrow> char" where
  "digit_char n = ''0123456789'' ! n"

fun str_nat :: "nat \<Rightarrow> string" where
  "str_nat n = (if n < 10 then [digit_char n] else str_nat (n div 10) @ [digit_char (n mod 10)])"

declare str_nat.simps [simp del]

definition str_int :: "int \<Rightarrow> string" where
  "str_int i = (if i < 0 then CHR ''-'' # str_nat (nat (- i)) else str_nat (nat i))"

definition str_tuple2 :: "int \<times> int \<Rightarrow> string" where
  \<comment> \<open>\<open>str((a, b))\<close>, for example \<open>'(2021, 1)'\<close>\<close>
  "str_tuple2 p = ''('' @ str_int (fst p) @ '', '' @ str_int (snd p) @ '')''"

subsection \<open>Searching a grid\<close>

definition nd_eq :: "'a ndarray \<Rightarrow> 'a \<Rightarrow> bool list list" where
  \<comment> \<open>\<open>grid == value\<close>, cell by cell: a missing cell equals no value.\<close>
  "nd_eq g v = map (map (\<lambda>c. c = Val v)) g"

definition nonzero :: "bool list list \<Rightarrow> nat list \<times> nat list" where
  \<comment> \<open>\<open>np.nonzero\<close>: the row indices and the column indices of the true cells, row by row.\<close>
  "nonzero b =
     (let hits = concat (map (\<lambda>i. map (\<lambda>j. (i, j)) (filter (\<lambda>j. b ! i ! j) [0..<length (b ! i)]))
                             [0..<length b])
      in (map fst hits, map snd hits))"

fun np_max :: "nat list \<Rightarrow> py_error + nat" where
  "np_max [] = Inl ValueError"
| "np_max (x # xs) = Inr (fold max xs x)"

fun np_min :: "nat list \<Rightarrow> py_error + nat" where
  "np_min [] = Inl ValueError"
| "np_min (x # xs) = Inr (fold min xs x)"

fun collect_locs :: "('k \<Rightarrow> py_error + rat) \<Rightarrow> 'k list \<Rightarrow> py_error + ('k \<times> rat) list" where
  \<comment> \<open>the loop that fills the dictionary of label locations, key by key\<close>
  "collect_locs f [] = Inr []"
| "collect_locs f (k # ks) =
     (case f k of
        Inl e \<Rightarrow> Inl e
      | Inr loc \<Rightarrow> (case collect_locs f ks of Inl e \<Rightarrow> Inl e | Inr locs \<Rightarrow> Inr ((k, loc) # locs)))"

subsection \<open>Month labels\<close>

definition month_years :: "date list \<Rightarrow> (int \<times> int) list" where
  "month_years dates = map (\<lambda>d. (year d, month d)) dates"

definition month_loc :: "string ndarray \<Rightarrow> bool \<Rightarrow> int \<times> int \<Rightarrow> py_error + rat" where
  "month_loc month_year_grid flip m =
     (let (yy, xx) = nonzero (nd_eq month_year_grid (str_tuple2 m));
          zz = (if flip then xx else yy)
      in case np_max zz of
           Inl e \<Rightarrow> Inl e
         | Inr hi \<Rightarrow> (case np_min zz of Inl e \<Rightarrow> Inl e | Inr lo \<Rightarrow> Inr (of_nat (hi + lo) / 2)))"

definition month_locs :: "date list \<Rightarrow> bool \<Rightarrow> py_error + ((int \<times> int) \<times> rat) list" where
  "month_locs dates flip =
     (let month_years_str = map str_tuple2 (month_years dates)
      in case date_grid astype_object dates month_years_str flip Object of
           Inl e \<Rightarrow> Inl e
         | Inr month_year_grid \<Rightarrow>
             collect_locs (month_loc month_year_grid flip) (sort (remdups (month_years dates))))"

definition month_abbr :: "string list" where
  \<comment> \<open>\<open>calendar.month_abbr\<close> in the C locale; index 0 is the empty string\<close>
  "month_abbr =[[], ''Jan'', ''Feb'', ''Mar'', ''Apr'', ''May'', ''Jun'',
                 ''Jul'', ''Aug'', ''Sep'', ''Oct'', ''Nov'', ''Dec'']"

datatype axis = XAxis | YAxis

record tick_labels =
  tick_axis :: axis
  ticks :: "rat list"
  ticklabels :: "string list"

definition add_month_label :: "date list \<Rightarrow> bool \<Rightarrow> py_error + tick_labels" where
  "add_month_label dates flip =
     (case month_locs dates flip of
        Inl e \<Rightarrow> Inl e
      | Inr locs \<Rightarrow>
          Inr \<lparr>tick_axis = (if flip then XAxis else YAxis),
               ticks = map snd locs,
               ticklabels = map (\<lambda>x. month_abbr ! nat (snd (fst x))) locs\<rparr>)"

subsection \<open>Year labels\<close>

definition year_loc :: "int ndarray \<Rightarrow> bool \<Rightarrow> int \<Rightarrow> py_error + rat" where
  "year_loc year_grid flip y =
     (let (yy, xx) = nonzero (nd_eq year_grid y);
          zz = (if flip then xx else yy)
      in case np_max zz of
           Inl e \<Rightarrow> Inl e
         | Inr hi \<Rightarrow> (case np_min zz of Inl e \<Rightarrow> Inl e | Inr lo \<Rightarrow> Inr (of_nat (hi + 1 + lo) / 2)))"

definition year_locs :: "date list \<Rightarrow> bool \<Rightarrow> py_error + (int \<times> rat) list" where
  "year_locs dates flip =
     (let years = map year dates
      in case date_grid float64_of_field dates years flip Float64 of
           Inl e \<Rightarrow> Inl e
         | Inr year_grid \<Rightarrow> collect_locs (year_loc year_grid flip) (sort (remdups years)))"

definition add_year_label :: "date list \<Rightarrow> bool \<Rightarrow> py_error + (int \<times> rat \<times> rat) list" where
  \<comment> \<open>the annotations drawn: the year and its position in axes fractions\<close>
  "add_year_label dates flip =
     (let years = map year dates
      in case date_grid float64_of_field dates years flip Float64 of
           Inl e \<Rightarrow> Inl e
         | Inr year_grid \<Rightarrow>
             (case collect_locs (year_loc year_grid flip) (sort (remdups years)) of
                Inl e \<Rightarrow> Inl e
              | Inr locs \<Rightarrow>
                  Inr (map (\<lambda>(y, loc).
                         if flip then (y, loc / of_nat (snd (nd_shape year_grid)), 1)
                         else (y, 0, 1 - loc / of_nat (length year_grid))) locs)))"

subsection \<open>Date labels\<close>

text \<open>
  In \<open>add_date_label\<close> the grid of days is bound to \<open>day_grid\<close>, but the cell is read as
  \<open>date_grid[i, j]\<close>: \<open>date_grid\<close> is the function of the module, and subscripting a
  function raises \<open>TypeError\<close>. The handler catches \<open>ValueError\<close> only.
\<close>

definition ndindex :: "nat \<times> nat \<Rightarrow> (nat \<times> nat) list" where
  "ndindex shp = concat (map (\<lambda>i. map (\<lambda>j. (i, j)) [0..<snd shp]) [0..<fst shp])"

definition subscript_function :: "nat \<times> nat \<Rightarrow> py_error + int cell" where
  "subscript_function ij = Inl TypeError"

fun py_int :: "int cell \<Rightarrow> py_error + int" where
  \<comment> \<open>\<open>int(x)\<close>: not-a-number raises \<open>ValueError\<close>, \<open>None\<close> raises \<open>TypeError\<close>\<close>
  "py_int (Val v) = Inr v"
| "py_int NaN = Inl ValueError"
| "py_int PyNone = Inl TypeError"
| "py_int Uninit = Inl ValueError"

fun label_cells :: "(nat \<times> nat) list \<Rightarrow> py_error + ((rat \<times> rat) \<times> int) list" where
  "label_cells [] = Inr []"
| "label_cells ((i, j) # rest) =
     (case (case subscript_function (i, j) of Inl e \<Rightarrow> Inl e | Inr c \<Rightarrow> py_int c) of
        Inl ValueError \<Rightarrow> label_cells rest
      | Inl e \<Rightarrow> Inl e
      | Inr n \<Rightarrow>
          (case label_cells rest of
             Inl e \<Rightarrow> Inl e
           | Inr texts \<Rightarrow> Inr (((of_nat j + 1 / 2, of_nat i + 1 / 2), n) # texts)))"

definition add_date_label :: "date list \<Rightarrow> bool \<Rightarrow> py_error + ((rat \<times> rat) \<times> int) list" where
  "add_date_label dates flip =
     (let days = map day dates
      in case date_grid float64_of_field dates days flip Float64 of
           Inl e \<Rightarrow> Inl e
         | Inr day_grid \<Rightarrow> label_cells (ndindex (nd_shape day_grid)))"

section \<open>The layout in the words of the specification\<close>

text \<open>
  The cell of a date, stated without the lookup table of the code: the row is the position
  of the date's (ISO year, ISO week) pair among the distinct pairs of the input in
  ascending order, the column is the ISO weekday minus one.
\<close>

fun index_of :: "'a \<Rightarrow> 'a list \<Rightarrow> nat" where
  "index_of x [] = 0"
| "index_of x (y # ys) = (if x = y then 0 else Suc (index_of x ys))"

definition iso_week :: "date \<Rightarrow> int \<times> int" where
  "iso_week d = (case isocalendar d of (y, w, wd) \<Rightarrow> (y, w))"

definition iso_weekday :: "date \<Rightarrow> int" where
  "iso_weekday d = (case isocalendar d of (y, w, wd) \<Rightarrow> wd)"

definition distinct_weeks :: "date list \<Rightarrow> (int \<times> int) list" where
  "distinct_weeks dates = sorted_list_of_set (iso_week ` set dates)"

definition grid_row :: "date list \<Rightarrow> date \<Rightarrow> nat" where
  "grid_row dates d = index_of (iso_week d) (distinct_weeks dates)"

definition grid_col :: "date \<Rightarrow> nat" where
  "grid_col d = nat (iso_weekday d - 1)"

definition cell_at :: "bool \<Rightarrow> 'a ndarray \<Rightarrow> nat \<Rightarrow> nat \<Rightarrow> 'a cell" where
  \<comment> \<open>the cell of week \<open>w\<close> and weekday \<open>k\<close> in a grid of the given orientation\<close>
  "cell_at flip g w k = (if flip then g ! k ! w else g ! w ! k)"

definition missing_marker :: "dtype \<Rightarrow> 'a cell" where
  "missing_marker dt = (case dt of Float64 \<Rightarrow> NaN | Object \<Rightarrow> PyNone)"

section \<open>Auxiliary notions\<close>

text \<open>
  The writes of the scatter as a list, the last value written to a cell, the grid before
  the scatter, a reader for decimal numerals, and the week coordinates of the dates of a
  group (a month or a year), which the statements about label positions refer to.
\<close>

fun put_all :: "'a ndarray \<Rightarrow> (nat \<times> nat \<times> 'a cell) list \<Rightarrow> 'a ndarray" where
  "put_all g [] = g"
| "put_all g ((r, k, c) # ws) = put_all (g[r := (g ! r)[k := c]]) ws"

fun last_write :: "(nat \<times> nat \<times> 'a) list \<Rightarrow> nat \<Rightarrow> nat \<Rightarrow> 'a option" where
  "last_write [] r k = None"
| "last_write ((r', k', v) # ws) r k =
     (case last_write ws r k of
        Some u \<Rightarrow> Some u
      | None \<Rightarrow> if r' = r \<and> k' = k then Some v else None)"

definition blank_grid :: "nat \<Rightarrow> dtype \<Rightarrow> 'a ndarray" where
  "blank_grid n dt = replicate n (replicate 7 (missing_marker dt))"

definition writes :: "date list \<Rightarrow> 'a list \<Rightarrow> (nat \<times> nat \<times> 'a) list" where
  "writes dates data = zip (map (grid_row dates) dates) (zip (map grid_col dates) data)"

definition digit_val :: "char \<Rightarrow> nat" where
  "digit_val c = index_of c ''0123456789''"

definition read_nat :: "string \<Rightarrow> nat" where
  "read_nat s = foldl (\<lambda>a c. 10 * a + digit_val c) 0 s"

definition group_rows :: "date list \<Rightarrow> (date \<Rightarrow> 'k) \<Rightarrow> 'k \<Rightarrow> nat list" where
  \<comment> \<open>the week coordinates of the dates of a group\<close>
  "group_rows dates key m = map (grid_row dates) (filter (\<lambda>d. key d = m) dates)"

section \<open>Properties\<close>

subsection \<open>Positions in a list\<close>

lemma index_of_less: "x \<in> set xs \<Longrightarrow> index_of x xs < length xs"
  by (induction xs) auto

lemma nth_index_of: "x \<in> set xs \<Longrightarrow> xs ! index_of x xs = x"
  by (induction xs) auto

lemma index_of_inj: "x \<in> set xs \<Longrightarrow> index_of x xs = index_of y xs \<Longrightarrow> x = y"
  by (induction xs) (auto split: if_splits)

lemma map_of_zip_upt:
  "map_of (zip xs (map int [a..<a + length xs])) k =
     (if k \<in> set xs then Some (int (a + index_of k xs)) else None)"
proof (induction xs arbitrary: a)
  case Nil
  then show ?case by simp
next
  case (Cons x xs)
  have "[a..<a + length (x # xs)] = a # [Suc a..<Suc a + length xs]"
    by (subst upt_rec) simp
  then show ?case using Cons.IH [of "Suc a"] by simp
qed

lemma lookup_each_total:
  "\<forall>k \<in> set ks. m k = Some (f k) \<Longrightarrow> lookup_each m ks = Inr (map f ks)"
  by (induction ks) auto

subsection \<open>The index arrays of the grid builder\<close>

lemma week_keys_eq: "week_keys dates = map iso_week dates"
  by (simp add: week_keys_def iso_dates_def iso_week_def)

lemma unique_weeks_eq: "unique_weeks dates = distinct_weeks dates"
  by (simp add: unique_weeks_def distinct_weeks_def week_keys_eq
      sorted_list_of_set_sort_remdups [symmetric])

lemma set_distinct_weeks: "set (distinct_weeks dates) = iso_week ` set dates"
  by (simp add: distinct_weeks_def)

lemma length_distinct_weeks: "length (distinct_weeks dates) = card (iso_week ` set dates)"
  by (simp add: distinct_weeks_def)

lemma distinct_weeks_pos: "dates \<noteq> [] \<Longrightarrow> 0 < length (distinct_weeks dates)"
  by (simp add: length_distinct_weeks card_gt_0_iff)

lemma weeknum2idx_eq:
  "weeknum2idx dates k =
     (if k \<in> iso_week ` set dates then Some (int (index_of k (distinct_weeks dates))) else None)"
  using map_of_zip_upt [of "distinct_weeks dates" 0 k]
  by (simp add: weeknum2idx_def unique_weeks_eq set_distinct_weeks)

lemma week_coords_eq: "week_coords dates = Inr (map (\<lambda>d. int (grid_row dates d)) dates)"
proof -
  have "lookup_each (weeknum2idx dates) (week_keys dates) =
          Inr (map (\<lambda>k. int (index_of k (distinct_weeks dates))) (week_keys dates))"
    by (rule lookup_each_total) (simp add: weeknum2idx_eq week_keys_eq)
  then show ?thesis
    by (simp add: week_coords_def week_keys_eq grid_row_def comp_def)
qed

lemma iso_weekday_range: "1 \<le> iso_weekday d \<and> iso_weekday d \<le> 7"
  by (auto simp: iso_weekday_def isocalendar_def Let_def)

lemma day_coord_eq: "(case isocalendar d of (y, w, wd) \<Rightarrow> wd - 1) = int (grid_col d)"
  using iso_weekday_range [of d]
  by (simp add: grid_col_def iso_weekday_def split: prod.splits)

lemma day_coords_eq: "day_coords dates = map (\<lambda>d. int (grid_col d)) dates"
  by (simp add: day_coords_def iso_dates_def day_coord_eq)

lemma grid_col_less: "grid_col d < 7"
  using iso_weekday_range [of d] unfolding grid_col_def by linarith

lemma grid_row_less: "d \<in> set dates \<Longrightarrow> grid_row dates d < card (iso_week ` set dates)"
  using index_of_less [of "iso_week d" "distinct_weeks dates"]
  by (simp add: grid_row_def set_distinct_weeks length_distinct_weeks)

lemma grid_row_eq_iff:
  "d \<in> set dates \<Longrightarrow> grid_row dates d = grid_row dates d' \<longleftrightarrow> iso_week d = iso_week d'"
  using index_of_inj [of "iso_week d" "distinct_weeks dates" "iso_week d'"]
  by (auto simp: grid_row_def set_distinct_weeks)

subsection \<open>Writing into a grid\<close>

lemma length_put_all: "length (put_all g ws) = length g"
  by (induction g ws rule: put_all.induct) auto

lemma length_update_row: "length (g[r' := (g ! r')[k := c]] ! r) = length (g ! r)"
  by (cases "r' < length g") (auto simp: nth_list_update list_update_beyond)

lemma length_put_all_row: "length (put_all g ws ! r) = length (g ! r)"
  by (induction g ws rule: put_all.induct) (auto simp: length_update_row)

lemma update_cell_nth:
  "r < length g \<Longrightarrow> k < length (g ! r) \<Longrightarrow>
   g[r' := (g ! r')[k' := c]] ! r ! k = (if r' = r \<and> k' = k then c else g ! r ! k)"
  by (cases "r' = r") (auto simp: nth_list_update)

lemma put_all_nth:
  "r < length g \<Longrightarrow> k < length (g ! r) \<Longrightarrow>
   put_all g ws ! r ! k = (case last_write ws r k of None \<Rightarrow> g ! r ! k | Some c \<Rightarrow> c)"
proof (induction g ws rule: put_all.induct)
  case (1 g)
  then show ?case by simp
next
  case (2 g r' k' v ws)
  let ?g = "g[r' := (g ! r')[k' := v]]"
  have "r < length ?g" "k < length (?g ! r)"
    using 2 by (simp_all add: length_update_row)
  then have "put_all ?g ws ! r ! k =
               (case last_write ws r k of None \<Rightarrow> ?g ! r ! k | Some u \<Rightarrow> u)"
    by (rule "2.IH")
  then show ?case
    using "2.prems" by (simp add: update_cell_nth split: option.splits)
qed

lemma last_write_append:
  "last_write (xs @ ys) r k =
     (case last_write ys r k of Some u \<Rightarrow> Some u | None \<Rightarrow> last_write xs r k)"
  by (induction xs) (auto split: option.splits)

lemma last_write_None:
  "last_write ws r k = None \<longleftrightarrow> (\<forall>i < length ws. \<forall>v. ws ! i \<noteq> (r, k, v))"
proof (induction ws)
  case Nil
  then show ?case by simp
next
  case (Cons w ws)
  obtain r' k' v' where w: "w = (r', k', v')" by (cases w) auto
  show ?case
    unfolding w using Cons.IH
    by (auto simp: nth_Cons less_Suc_eq_0_disj split: option.splits nat.splits)
qed

lemma last_write_last:
  assumes "i < length ws" "ws ! i = (r, k, v)"
    and "\<forall>j. i < j \<and> j < length ws \<longrightarrow> (\<forall>u. ws ! j \<noteq> (r, k, u))"
  shows "last_write ws r k = Some v"
proof -
  have split: "ws = take i ws @ (r, k, v) # drop (Suc i) ws"
    using id_take_nth_drop [OF assms(1)] assms(2) by simp
  have "last_write (drop (Suc i) ws) r k = None"
    unfolding last_write_None using assms(3) by (auto simp: nth_drop)
  then have "last_write (take i ws @ (r, k, v) # drop (Suc i) ws) r k = Some v"
    by (simp add: last_write_append)
  then show ?thesis
    using split by simp
qed

lemma last_write_Some:
  "last_write ws r k = Some v \<Longrightarrow> \<exists>i < length ws. ws ! i = (r, k, v)"
proof (induction ws)
  case Nil
  then show ?case by simp
next
  case (Cons w ws)
  obtain r' k' v' where w: "w = (r', k', v')" by (cases w) auto
  show ?case
  proof (cases "last_write ws r k")
    case None
    then have "w = (r, k, v)" using Cons.prems w by (auto split: if_splits)
    then show ?thesis by auto
  next
    case (Some u)
    then have "last_write ws r k = Some v" using Cons.prems w by simp
    then obtain i where "i < length ws" "ws ! i = (r, k, v)" using Cons.IH by blast
    then have "Suc i < length (w # ws) \<and> (w # ws) ! Suc i = (r, k, v)" by simp
    then show ?thesis by blast
  qed
qed

lemma scatter_put_all:
  assumes "length rs = length cs" "length vs = length rs"
    and "\<forall>r \<in> set rs. r < length g" "\<forall>k \<in> set cs. k < c" "\<forall>row \<in> set g. length row = c"
  shows "scatter g (map int rs) (map int cs) vs = Inr (put_all g (zip rs (zip cs vs)))"
  using assms
proof (induction rs arbitrary: g cs vs)
  case Nil
  then show ?case by simp
next
  case (Cons r rs)
  obtain k cs' where cs: "cs = k # cs'" using Cons.prems(1) by (cases cs) auto
  obtain v vs' where vs: "vs = v # vs'" using Cons.prems(2) by (cases vs) auto
  let ?g = "g[r := (g ! r)[k := v]]"
  have r: "r < length g" and k: "k < length (g ! r)"
    using Cons.prems cs by auto
  have rows: "\<forall>row \<in> set ?g. length row = c"
    using Cons.prems(5) r by (auto dest!: set_update_subset_insert [THEN subsetD])
  have "scatter ?g (map int rs) (map int cs') vs' = Inr (put_all ?g (zip rs (zip cs' vs')))"
    using Cons.prems cs vs rows by (intro Cons.IH) auto
  then show ?case
    using r k by (simp add: cs vs nd_index_def)
qed

lemma scatter_shape:
  "scatter g ws ds vs = Inr g' \<Longrightarrow>
   length g' = length g \<and> (\<forall>r. length (g' ! r) = length (g ! r))"
proof (induction g ws ds vs arbitrary: g' rule: scatter.induct)
  case (2 g w ws d ds v vs)
  from "2.prems" obtain i j where i: "nd_index (length g) w = Inr i"
    and j: "nd_index (length (g ! i)) d = Inr j"
    and rest: "scatter (g[i := (g ! i)[j := v]]) ws ds vs = Inr g'"
    by (auto split: sum.splits)
  from "2.IH" [OF i j rest] show ?case
    by (simp add: length_update_row)
qed simp_all

subsection \<open>Transposition\<close>

lemma nd_T_eq:
  assumes "g \<noteq> []" "\<forall>row \<in> set g. length row = c"
  shows "nd_T g = map (\<lambda>j. map (\<lambda>row. row ! j) g) [0..<c]"
  using assms by (cases g) (simp_all add: nd_T_def)

lemma nd_T_shape:
  assumes "g \<noteq> []" "\<forall>row \<in> set g. length row = c"
  shows "length (nd_T g) = c \<and> (\<forall>row \<in> set (nd_T g). length row = length g)"
  by (auto simp: nd_T_eq [OF assms])

lemma nd_T_nth:
  assumes "g \<noteq> []" "\<forall>row \<in> set g. length row = c" "i < length g" "j < c"
  shows "nd_T g ! j ! i = g ! i ! j"
  using assms(3,4) by (simp add: nd_T_eq [OF assms(1,2)])

lemma nd_T_T:
  assumes "g \<noteq> []" "\<forall>row \<in> set g. length row = c" "0 < c"
  shows "nd_T (nd_T g) = g"
proof -
  have ne: "nd_T g \<noteq> []"
    using nd_T_shape [OF assms(1,2)] assms(3) by auto
  have rows: "\<forall>row \<in> set (nd_T g). length row = length g"
    using nd_T_shape [OF assms(1,2)] by simp
  have len: "length (nd_T g) = c"
    using nd_T_shape [OF assms(1,2)] by simp
  show ?thesis
  proof (rule nth_equalityI)
    show "length (nd_T (nd_T g)) = length g"
      using nd_T_shape [OF ne rows] by simp
  next
    fix i assume "i < length (nd_T (nd_T g))"
    then have i: "i < length g"
      using nd_T_shape [OF ne rows] by simp
    then have gi: "length (g ! i) = c"
      using assms(2) by simp
    show "nd_T (nd_T g) ! i = g ! i"
    proof (rule nth_equalityI)
      show "length (nd_T (nd_T g) ! i) = length (g ! i)"
        using i gi len by (simp add: nd_T_eq [OF ne rows])
    next
      fix j assume "j < length (nd_T (nd_T g) ! i)"
      then have j: "j < c"
        using i len by (simp add: nd_T_eq [OF ne rows])
      have "nd_T (nd_T g) ! i ! j = nd_T g ! j ! i"
        using nd_T_nth [OF ne rows, of j i] j len i by simp
      also have "\<dots> = g ! i ! j"
        by (rule nd_T_nth [OF assms(1,2) i j])
      finally show "nd_T (nd_T g) ! i ! j = g ! i ! j" .
    qed
  qed
qed

subsection \<open>The grid as a sequence of writes\<close>

lemma blank_grid_eq:
  "(if dt = Float64 then nan_times (np_empty (n, 7) dt) else np_empty (n, 7) dt) = blank_grid n dt"
  by (cases dt) (simp_all add: np_empty_def nan_times_def blank_grid_def missing_marker_def)

lemma date_grid_unfold:
  "date_grid cast dates data flip dt =
     (if dates = [] then Inl IndexError
      else case fancy_assign cast (blank_grid (card (iso_week ` set dates)) dt)
                  (map int (map (grid_row dates) dates)) (map int (map grid_col dates)) data of
             Inl e \<Rightarrow> Inl e
           | Inr grid \<Rightarrow> Inr (if flip then nd_T grid else grid))"
  by (simp add: date_grid_def week_coords_eq day_coords_eq unique_weeks_eq length_distinct_weeks
      blank_grid_eq Let_def comp_def)

lemma date_grid_flip:
  "date_grid cast dates data flip dt =
     (case date_grid cast dates data False dt of
        Inl e \<Rightarrow> Inl e
      | Inr g \<Rightarrow> Inr (if flip then nd_T g else g))"
  by (simp add: date_grid_unfold split: sum.splits)

lemma fancy_assign_shape:
  "fancy_assign cast g ws ds vs = Inr g' \<Longrightarrow>
   length g' = length g \<and> (\<forall>r. length (g' ! r) = length (g ! r))"
  by (auto simp: fancy_assign_def dest: scatter_shape split: if_splits sum.splits)

lemma date_grid_False_shape:
  assumes "date_grid cast dates data False dt = Inr g"
  shows "dates \<noteq> [] \<and> g \<noteq> [] \<and> length g = card (iso_week ` set dates) \<and>
         (\<forall>row \<in> set g. length row = 7)"
proof -
  let ?n = "card (iso_week ` set dates)"
  have ne: "dates \<noteq> []"
    using assms by (auto simp: date_grid_unfold)
  then have fa: "fancy_assign cast (blank_grid ?n dt)
        (map int (map (grid_row dates) dates)) (map int (map grid_col dates)) data = Inr g"
    using assms by (auto simp: date_grid_unfold split: sum.splits)
  have len: "length g = ?n"
    using fancy_assign_shape [OF fa] by (simp add: blank_grid_def)
  have "\<forall>r < length g. length (g ! r) = 7"
    using fancy_assign_shape [OF fa] len by (simp add: blank_grid_def)
  then have rows: "\<forall>row \<in> set g. length row = 7"
    by (simp add: all_set_conv_all_nth)
  have "0 < ?n"
    using ne by (simp add: card_gt_0_iff)
  then show ?thesis
    using ne len rows by auto
qed

lemma length_cast_each: "cast_each cast vs = Inr cs \<Longrightarrow> length cs = length vs"
  by (induction vs arbitrary: cs) (auto split: sum.splits)

lemma cast_each_nth:
  "cast_each cast vs = Inr cs \<Longrightarrow> i < length vs \<Longrightarrow> cast (vs ! i) = Inr (cs ! i)"
proof (induction vs arbitrary: cs i)
  case Nil
  then show ?case by simp
next
  case (Cons v vs)
  then show ?case by (cases i) (auto split: sum.splits)
qed

lemma cast_each_total:
  "\<forall>v \<in> set vs. \<exists>c. cast v = Inr c \<Longrightarrow> \<exists>cs. cast_each cast vs = Inr cs"
  by (induction vs) auto

lemma cast_each_error: "cast_each cast vs = Inl e \<Longrightarrow> \<exists>v \<in> set vs. cast v = Inl e"
  by (induction vs) (auto split: sum.splits)

lemma cast_each_exact: "(\<And>v. cast v = Inr (h v)) \<Longrightarrow> cast_each cast vs = Inr (map h vs)"
  by (induction vs) auto

lemma scatter_writes:
  assumes "length cs = length dates"
  shows "scatter (blank_grid (card (iso_week ` set dates)) dt)
           (map int (map (grid_row dates) dates)) (map int (map grid_col dates)) cs =
         Inr (put_all (blank_grid (card (iso_week ` set dates)) dt) (writes dates cs))"
  unfolding writes_def
proof (rule scatter_put_all [where c = 7])
  let ?n = "card (iso_week ` set dates)"
  show "\<forall>r \<in> set (map (grid_row dates) dates). r < length (blank_grid ?n dt)"
    by (auto simp: blank_grid_def grid_row_less)
  show "\<forall>k \<in> set (map grid_col dates). k < 7"
    by (auto simp: grid_col_less)
  show "\<forall>row \<in> set (blank_grid ?n dt). length row = 7"
    by (auto simp: blank_grid_def)
qed (simp_all add: assms)

lemma date_grid_parallel:
  assumes "dates \<noteq> []" "length data = length dates" "cast_each cast data = Inr cs"
  shows "date_grid cast dates data False dt =
           Inr (put_all (blank_grid (card (iso_week ` set dates)) dt) (writes dates cs))"
proof -
  have len: "length cs = length dates"
    using length_cast_each [OF assms(3)] assms(2) by simp
  show ?thesis
    using assms(1) len scatter_writes [OF len, of dt]
    by (simp add: date_grid_unfold fancy_assign_def assms(3))
qed

lemma date_grid_cast_error:
  assumes "dates \<noteq> []" "cast_each cast data = Inl e"
  shows "date_grid cast dates data flip dt = Inl e"
  using assms by (simp add: date_grid_unfold fancy_assign_def)

lemma date_grid_writes:
  assumes "date_grid cast dates data False dt = Inr g"
  shows "\<exists>cs. length cs = length dates \<and>
              (length data = length dates \<longrightarrow> cast_each cast data = Inr cs) \<and>
              g = put_all (blank_grid (card (iso_week ` set dates)) dt) (writes dates cs)"
proof -
  let ?n = "card (iso_week ` set dates)"
  let ?rows = "map int (map (grid_row dates) dates)" and ?cols = "map int (map grid_col dates)"
  have ne: "dates \<noteq> []"
    using date_grid_False_shape [OF assms] by simp
  obtain cs0 where cs0: "cast_each cast data = Inr cs0"
    using assms ne by (cases "cast_each cast data") (simp_all add: date_grid_cast_error)
  have len0: "length cs0 = length data"
    by (rule length_cast_each [OF cs0])
  show ?thesis
  proof (cases "length data = length dates")
    case True
    then show ?thesis
      using assms date_grid_parallel [OF ne True cs0, of dt] len0 cs0 by auto
  next
    case False
    let ?cs = "replicate (length dates) (hd cs0)"
    have "scatter (blank_grid ?n dt) ?rows ?cols ?cs = Inr g"
      using assms ne False len0
      by (auto simp: date_grid_unfold fancy_assign_def cs0 split: if_splits sum.splits)
    then have "g = put_all (blank_grid ?n dt) (writes dates ?cs)"
      using scatter_writes [of ?cs dates dt] by simp
    then show ?thesis
      using False by (intro exI [of _ ?cs]) simp
  qed
qed

lemma writes_nth:
  "length vs = length dates \<Longrightarrow> i < length dates \<Longrightarrow>
   writes dates vs ! i = (grid_row dates (dates ! i), grid_col (dates ! i), vs ! i)"
  by (simp add: writes_def)

lemma length_writes: "length vs = length dates \<Longrightarrow> length (writes dates vs) = length dates"
  by (simp add: writes_def)

lemma blank_grid_nth:
  "w < n \<Longrightarrow> k < 7 \<Longrightarrow> blank_grid n dt ! w ! k = missing_marker dt"
  by (simp add: blank_grid_def)

lemma cell_at_flip:
  assumes "date_grid cast dates data False dt = Inr g" "date_grid cast dates data flip dt = Inr g'"
    and "w < card (iso_week ` set dates)" "k < 7"
  shows "cell_at flip g' w k = g ! w ! k"
proof -
  note shape = date_grid_False_shape [OF assms(1)]
  have g': "g' = (if flip then nd_T g else g)"
    using assms(1,2) by (subst (asm) (2) date_grid_flip) simp
  show ?thesis
  proof (cases flip)
    case True
    have "nd_T g ! k ! w = g ! w ! k"
      using shape assms(3,4) by (intro nd_T_nth [where c = 7]) auto
    then show ?thesis using True g' by (simp add: cell_at_def)
  next
    case False
    then show ?thesis using g' by (simp add: cell_at_def)
  qed
qed

lemma date_grid_False_exists:
  assumes "date_grid cast dates data flip dt = Inr g'"
  shows "\<exists>g. date_grid cast dates data False dt = Inr g"
  using assms by (subst (asm) date_grid_flip) (auto split: sum.splits)

subsection \<open>The ISO calendar determines the date\<close>

lemma div_step:
  fixes y n :: int
  assumes "0 < n"
  shows "y div n = (y - 1) div n + (if y mod n = 0 then 1 else 0)"
proof -
  define q where "q = (y - 1) div n"
  define r where "r = (y - 1) mod n"
  have y: "y = n * q + (r + 1)"
    unfolding q_def r_def by simp
  have r: "0 \<le> r" "r < n"
    unfolding r_def using assms by simp_all
  show ?thesis
  proof (cases "r + 1 = n")
    case True
    then have eq: "y = n * (q + 1) + 0"
      using y by (simp add: algebra_simps)
    have "y div n = q + 1"
      by (rule int_div_pos_eq [OF eq]) (use assms in simp_all)
    moreover have "y mod n = 0"
      by (rule int_mod_pos_eq [OF eq]) (use assms in simp_all)
    ultimately show ?thesis
      by (simp add: q_def)
  next
    case False
    then have lt: "r + 1 < n" using r by simp
    have "y div n = q"
      by (rule int_div_pos_eq [OF y]) (use r lt in simp_all)
    moreover have "y mod n = r + 1"
      by (rule int_mod_pos_eq [OF y]) (use r lt in simp_all)
    ultimately show ?thesis
      using r by (simp add: q_def)
  qed
qed


lemma mod_100_4: "(y :: int) mod 100 = 0 \<Longrightarrow> y mod 4 = 0"
proof -
  assume "y mod 100 = 0"
  then have "100 dvd y" by (simp add: mod_eq_0_iff_dvd)
  moreover have "(4 :: int) dvd 100" by simp
  ultimately have "4 dvd y" using dvd_trans by blast
  then show ?thesis by (simp add: mod_eq_0_iff_dvd)
qed

lemma mod_400_100: "(y :: int) mod 400 = 0 \<Longrightarrow> y mod 100 = 0"
proof -
  assume "y mod 400 = 0"
  then have "400 dvd y" by (simp add: mod_eq_0_iff_dvd)
  moreover have "(100 :: int) dvd 400" by simp
  ultimately have "100 dvd y" using dvd_trans by blast
  then show ?thesis by (simp add: mod_eq_0_iff_dvd)
qed

lemma dby_succ: "days_before_year (y + 1) = y * 365 + y div 4 - y div 100 + y div 400"
  by (simp add: days_before_year_def Let_def)

lemma dby_plain:
  "days_before_year y = (y - 1) * 365 + (y - 1) div 4 - (y - 1) div 100 + (y - 1) div 400"
  by (simp add: days_before_year_def Let_def)

lemma leap_arith:
  fixes a a' b b' c c' y :: int
  assumes "a = a' + (if A then 1 else 0)" "b = b' + (if B then 1 else 0)"
    and "c = c' + (if C then 1 else 0)" "B \<Longrightarrow> A" "C \<Longrightarrow> B"
  shows "y * 365 + a - b + c =
         (y - 1) * 365 + a' - b' + c' + 365 + (if A \<and> (\<not> B \<or> C) then 1 else 0)"
  using assms by (cases A; cases B; cases C; simp add: left_diff_distrib)

lemma days_before_year_step:
  "days_before_year (y + 1) = days_before_year y + 365 + (if is_leap y then 1 else 0)"
proof -
  have e4: "y div 4 = (y - 1) div 4 + (if y mod 4 = 0 then 1 else 0)"
    by (rule div_step) simp
  have e100: "y div 100 = (y - 1) div 100 + (if y mod 100 = 0 then 1 else 0)"
    by (rule div_step) simp
  have e400: "y div 400 = (y - 1) div 400 + (if y mod 400 = 0 then 1 else 0)"
    by (rule div_step) simp
  show ?thesis
    unfolding dby_succ dby_plain [of y] is_leap_def
    by (rule leap_arith [OF e4 e100 e400 mod_100_4 mod_400_100])
qed

lemma days_before_year_mono:
  assumes "y < y'"
  shows "days_before_year y + 365 + (if is_leap y then 1 else 0) \<le> days_before_year y'"
proof -
  have "y + 1 \<le> y'" using assms by simp
  then show ?thesis
  proof (induction y' rule: int_ge_induct)
    case base
    then show ?case by (simp add: days_before_year_step)
  next
    case (step i)
    then show ?case by (simp add: days_before_year_step [of i])
  qed
qed

lemma month_cases:
  assumes "1 \<le> m" "m \<le> (12 :: int)"
  shows "m \<in> {1, 2, 3, 4, 5, 6, 7, 8, 9, 10, 11, 12}"
  using assms unfolding insert_iff empty_iff by presburger

lemma month_table:
  assumes "1 \<le> m" "m \<le> 12"
  shows "days_before_month y m + days_in_month y m =
           (if m = 12 then 365 + (if is_leap y then 1 else 0) else days_before_month y (m + 1))"
    and "0 \<le> days_before_month y m"
  using month_cases [OF assms]
  by (auto simp: days_before_month_def days_in_month_def DAYS_BEFORE_MONTH_def DAYS_IN_MONTH_def)

lemma days_before_month_mono:
  assumes "1 \<le> m" "m < m'" "m' \<le> 12"
  shows "days_before_month y m + days_in_month y m \<le> days_before_month y m'"
proof -
  have "m + 1 \<le> m'" using assms by simp
  then show ?thesis
    using assms
  proof (induction m' rule: int_ge_induct)
    case base
    then show ?case using month_table(1) [of m y] by simp
  next
    case (step i)
    have "0 \<le> days_in_month y i"
      using month_cases [of i] step
      by (auto simp: days_in_month_def DAYS_IN_MONTH_def)
    then show ?case
      using step month_table(1) [of i y] by simp
  qed
qed

lemma day_of_year_range:
  assumes "valid_date d"
  shows "1 \<le> days_before_month (year d) (month d) + day d"
    and "days_before_month (year d) (month d) + day d \<le> 365 + (if is_leap (year d) then 1 else 0)"
proof -
  have m: "1 \<le> month d" "month d \<le> 12"
    and dd: "1 \<le> day d" "day d \<le> days_in_month (year d) (month d)"
    using assms by (simp_all add: valid_date_def)
  show "1 \<le> days_before_month (year d) (month d) + day d"
    using month_table(2) [OF m, of "year d"] dd by simp
  show "days_before_month (year d) (month d) + day d \<le> 365 + (if is_leap (year d) then 1 else 0)"
  proof (cases "month d = 12")
    case True
    then show ?thesis using month_table(1) [OF m, of "year d"] dd by simp
  next
    case False
    then have "month d < 12" using m by simp
    then have "days_before_month (year d) (month d) + days_in_month (year d) (month d)
                 \<le> days_before_month (year d) 12"
      using m by (intro days_before_month_mono) simp_all
    moreover have "days_before_month (year d) 12 + days_in_month (year d) 12 =
                     365 + (if is_leap (year d) then 1 else 0)"
      using month_table(1) [of 12 "year d"] by simp
    moreover have "days_in_month (year d) 12 = 31"
      by (simp add: days_in_month_def DAYS_IN_MONTH_def)
    ultimately show ?thesis using dd by simp
  qed
qed

lemma ymd2ord_inj:
  assumes "valid_date d" "valid_date d'"
    and "ymd2ord (year d) (month d) (day d) = ymd2ord (year d') (month d') (day d')"
  shows "d = d'"
proof -
  have le: "\<And>a b. valid_date a \<Longrightarrow> valid_date b \<Longrightarrow> year a < year b \<Longrightarrow>
              ymd2ord (year a) (month a) (day a) < ymd2ord (year b) (month b) (day b)"
  proof -
    fix a b assume a: "valid_date a" and b: "valid_date b" and lt: "year a < year b"
    have "ymd2ord (year a) (month a) (day a)
            \<le> days_before_year (year a) + 365 + (if is_leap (year a) then 1 else 0)"
      using day_of_year_range(2) [OF a] by (simp add: ymd2ord_def)
    also have "\<dots> \<le> days_before_year (year b)"
      by (rule days_before_year_mono [OF lt])
    also have "\<dots> < ymd2ord (year b) (month b) (day b)"
      using day_of_year_range(1) [OF b] by (simp add: ymd2ord_def)
    finally show "ymd2ord (year a) (month a) (day a) < ymd2ord (year b) (month b) (day b)" .
  qed
  have y: "year d = year d'"
    using le [OF assms(1,2)] le [OF assms(2,1)] assms(3) by force
  have doy: "days_before_month (year d) (month d) + day d =
             days_before_month (year d) (month d') + day d'"
    using assms(3) y by (simp add: ymd2ord_def)
  have m: "1 \<le> month d" "month d \<le> 12" "1 \<le> month d'" "month d' \<le> 12"
    and dd: "1 \<le> day d" "day d \<le> days_in_month (year d) (month d)"
      "1 \<le> day d'" "day d' \<le> days_in_month (year d) (month d')"
    using assms(1,2) y by (simp_all add: valid_date_def)
  have mm: "month d = month d'"
  proof (rule ccontr)
    assume "month d \<noteq> month d'"
    then consider "month d < month d'" | "month d' < month d" by linarith
    then show False
    proof cases
      case 1
      then show False
        using days_before_month_mono [of "month d" "month d'" "year d"] m dd doy by simp
    next
      case 2
      then show False
        using days_before_month_mono [of "month d'" "month d" "year d"] m dd doy by simp
    qed
  qed
  then have "day d = day d'" using doy by simp
  then show ?thesis using y mm by simp
qed
lemma first_day_of_year: "ymd2ord y 1 1 = days_before_year y + 1"
  by (simp add: ymd2ord_def days_before_month_def DAYS_BEFORE_MONTH_def)

lemma monday_arith:
  fixes f :: int
  defines "w \<equiv> (if (f + 6) mod 7 > 3 then f - (f + 6) mod 7 + 7 else f - (f + 6) mod 7)"
  shows "w mod 7 = 1 \<and> f - 3 \<le> w \<and> w \<le> f + 3"
proof -
  define r where "r = (f + 6) mod 7"
  have r: "0 \<le> r" "r < 7"
    by (simp_all add: r_def)
  have "(f - r) mod 7 = (f - (f + 6)) mod 7"
    unfolding r_def by (rule mod_diff_right_eq)
  then have m: "(f - r) mod 7 = 1"
    by simp
  then have m7: "(f - r + 7) mod 7 = 1"
    by simp
  have w: "w = (if r > 3 then f - r + 7 else f - r)"
    by (simp add: w_def r_def)
  show ?thesis
  proof (cases "r > 3")
    case True
    then have "w = f - r + 7" using w by simp
    then show ?thesis using m7 r True by simp
  next
    case False
    then have "w = f - r" using w by simp
    then show ?thesis using m r False by simp
  qed
qed

lemma isoweek1monday_facts:
  "isoweek1monday y mod 7 = 1 \<and> days_before_year y - 2 \<le> isoweek1monday y \<and>
   isoweek1monday y \<le> days_before_year y + 4"
  using monday_arith [of "days_before_year y + 1"]
  by (simp add: isoweek1monday_def first_day_of_year Let_def)

lemma div_mod_decomp: "(t :: int) = W + 7 * ((t - W) div 7) + (t - W) mod 7"
  by simp

lemma same_weekday_arith:
  fixes t W W1 :: int
  assumes "W mod 7 = 1" "W1 mod 7 = 1" "W1 \<le> t" "t - W1 \<le> 2"
  shows "(t - W) mod 7 = t - W1"
proof -
  have "(t - W) mod 7 = (t - W mod 7) mod 7"
    by (rule mod_diff_right_eq [symmetric])
  also have "\<dots> = (t - W1 mod 7) mod 7"
    by (simp only: assms(1,2))
  also have "\<dots> = (t - W1) mod 7"
    by (rule mod_diff_right_eq)
  also have "\<dots> = t - W1"
    using assms(3,4) by (intro mod_pos_pos_trivial) simp_all
  finally show ?thesis .
qed

lemma iso_decode:
  assumes "valid_date d" "isocalendar d = (iy, w, wd)"
  shows "ymd2ord (year d) (month d) (day d) = isoweek1monday iy + 7 * (w - 1) + (wd - 1)"
proof -
  define t where "t = ymd2ord (year d) (month d) (day d)"
  define W where "W = isoweek1monday (year d)"
  define W0 where "W0 = isoweek1monday (year d - 1)"
  define W1 where "W1 = isoweek1monday (year d + 1)"
  have iso: "(if (t - W) div 7 < 0 then (year d - 1, (t - W0) div 7 + 1, (t - W0) mod 7 + 1)
             else if 52 \<le> (t - W) div 7 \<and> W1 \<le> t then (year d + 1, 0 + 1, (t - W) mod 7 + 1)
             else (year d, (t - W) div 7 + 1, (t - W) mod 7 + 1)) = (iy, w, wd)"
    using assms(2) unfolding isocalendar_def Let_def t_def W_def W0_def W1_def .
  have "t \<le> days_before_year (year d) + 365 + (if is_leap (year d) then 1 else 0)"
    using day_of_year_range(2) [OF assms(1)] by (simp add: t_def ymd2ord_def)
  then have "t \<le> days_before_year (year d + 1)"
    by (simp add: days_before_year_step)
  then have near: "t - W1 \<le> 2"
    using isoweek1monday_facts [of "year d + 1"] by (simp add: W1_def)
  have mods: "W mod 7 = 1" "W1 mod 7 = 1"
    using isoweek1monday_facts [of "year d"] isoweek1monday_facts [of "year d + 1"]
    by (simp_all add: W_def W1_def)
  show ?thesis
  proof (cases "(t - W) div 7 < 0")
    case True
    then have "iy = year d - 1" "w - 1 = (t - W0) div 7" "wd - 1 = (t - W0) mod 7"
      using iso by auto
    then show ?thesis
      using div_mod_decomp [of t W0] by (simp add: t_def W0_def)
  next
    case neg: False
    show ?thesis
    proof (cases "52 \<le> (t - W) div 7 \<and> W1 \<le> t")
      case True
      then have "iy = year d + 1" "w - 1 = 0" "wd - 1 = (t - W) mod 7"
        using iso neg by auto
      moreover have "(t - W) mod 7 = t - W1"
        using mods True near by (intro same_weekday_arith) simp_all
      ultimately show ?thesis
        by (simp add: t_def W1_def)
    next
      case False
      then have "iy = year d" "w - 1 = (t - W) div 7" "wd - 1 = (t - W) mod 7"
        using iso neg by auto
      then show ?thesis
        using div_mod_decomp [of t W] by (simp add: t_def W_def)
    qed
  qed
qed

lemma isocalendar_inj:
  assumes "valid_date d" "valid_date d'" "isocalendar d = isocalendar d'"
  shows "d = d'"
proof -
  obtain iy w wd where iso: "isocalendar d = (iy, w, wd)"
    by (cases "isocalendar d") auto
  then have iso': "isocalendar d' = (iy, w, wd)"
    using assms(3) by simp
  have "ymd2ord (year d) (month d) (day d) = ymd2ord (year d') (month d') (day d')"
    using iso_decode [OF assms(1) iso] iso_decode [OF assms(2) iso'] by simp
  then show ?thesis
    by (rule ymd2ord_inj [OF assms(1,2)])
qed

lemma cell_inj:
  assumes "valid_date d" "valid_date d'" "d \<in> set dates"
    and "grid_row dates d = grid_row dates d'" "grid_col d = grid_col d'"
  shows "d = d'"
proof -
  have "iso_week d = iso_week d'"
    using assms(3,4) by (simp add: grid_row_eq_iff)
  moreover have "iso_weekday d = iso_weekday d'"
    using assms(5) iso_weekday_range [of d] iso_weekday_range [of d']
    unfolding grid_col_def by linarith
  ultimately have "isocalendar d = isocalendar d'"
    by (cases "isocalendar d"; cases "isocalendar d'") (simp add: iso_week_def iso_weekday_def)
  then show ?thesis
    by (rule isocalendar_inj [OF assms(1,2)])
qed
subsection \<open>The value a cell holds\<close>

lemma date_grid_returns:
  assumes "dates \<noteq> []" "length data = length dates" "cast_each cast data = Inr cs"
  shows "\<exists>g. date_grid cast dates data flip dt = Inr g"
  using date_grid_parallel [OF assms, of dt] by (subst date_grid_flip) simp

lemma last_occurrence_value:
  assumes "dates \<noteq> []" "length data = length dates" "\<forall>d \<in> set dates. valid_date d"
    and "i < length dates" "\<forall>j. i < j \<and> j < length dates \<longrightarrow> dates ! j \<noteq> dates ! i"
    and "cast_each cast data = Inr cs"
  shows "\<exists>g. date_grid cast dates data flip dt = Inr g \<and>
             cell_at flip g (grid_row dates (dates ! i)) (grid_col (dates ! i)) = cs ! i"
proof -
  let ?n = "card (iso_week ` set dates)"
  let ?r = "grid_row dates (dates ! i)" and ?k = "grid_col (dates ! i)"
  let ?g = "put_all (blank_grid ?n dt) (writes dates cs)"
  have len: "length cs = length dates"
    using length_cast_each [OF assms(6)] assms(2) by simp
  have g0: "date_grid cast dates data False dt = Inr ?g"
    by (rule date_grid_parallel [OF assms(1,2,6)])
  obtain g where g: "date_grid cast dates data flip dt = Inr g"
    using date_grid_returns [OF assms(1,2,6)] by blast
  have di: "dates ! i \<in> set dates"
    using assms(4) by simp
  have r: "?r < ?n" and k: "?k < 7"
    using di by (simp_all add: grid_row_less grid_col_less)
  have later: "\<forall>j. i < j \<and> j < length (writes dates cs) \<longrightarrow>
                 (\<forall>u. writes dates cs ! j \<noteq> (?r, ?k, u))"
  proof (intro allI impI notI)
    fix j u
    assume j: "i < j \<and> j < length (writes dates cs)"
      and eq: "writes dates cs ! j = (?r, ?k, u)"
    have jl: "j < length dates"
      using j len by (simp add: length_writes)
    then have "grid_row dates (dates ! j) = ?r" "grid_col (dates ! j) = ?k"
      using eq len by (simp_all add: writes_nth)
    then have "dates ! i = dates ! j"
      using assms(3) di jl by (intro cell_inj [of _ _ dates]) simp_all
    then show False
      using assms(5) j jl by auto
  qed
  have "last_write (writes dates cs) ?r ?k = Some (cs ! i)"
    using len assms(4) later by (intro last_write_last [of i]) (simp_all add: length_writes writes_nth)
  then have "?g ! ?r ! ?k = cs ! i"
    using r k by (subst put_all_nth) (simp_all add: blank_grid_def)
  then have "cell_at flip g ?r ?k = cs ! i"
    using cell_at_flip [OF g0 g r k] by simp
  then show ?thesis
    using g by blast
qed

lemma ndindex_nonempty:
  assumes "0 < r" "0 < c"
  shows "\<exists>rest. ndindex (r, c) = (0, 0) # rest"
proof -
  have "[0..<r] = 0 # [1..<r]" "[0..<c] = 0 # [1..<c]"
    using assms by (simp_all add: upt_conv_Cons)
  then show ?thesis
    by (simp add: ndindex_def)
qed

lemma cast_each_field: "cast_each float64_of_field ns = Inr (map Val ns)"
  by (rule cast_each_exact) (simp add: float64_of_field_def)

lemma cast_each_object: "cast_each astype_object vs = Inr (map Val vs)"
  by (rule cast_each_exact) (simp add: astype_object_def)

lemma add_date_label_nonempty:
  assumes "dates \<noteq> []"
  shows "add_date_label dates flip = Inl TypeError"
proof -
  obtain g where g: "date_grid float64_of_field dates (map day dates) flip Float64 = Inr g"
    using date_grid_returns [OF assms _ cast_each_field, of "map day dates"] by auto
  obtain g0 where g0: "date_grid float64_of_field dates (map day dates) False Float64 = Inr g0"
    using date_grid_False_exists [OF g] by blast
  note shape = date_grid_False_shape [OF g0]
  have eq: "g = (if flip then nd_T g0 else g0)"
    using g g0 by (subst (asm) date_grid_flip) simp
  have T: "length (nd_T g0) = 7 \<and> (\<forall>row \<in> set (nd_T g0). length row = length g0)"
    using shape by (intro nd_T_shape) auto
  have "0 < fst (nd_shape g) \<and> 0 < snd (nd_shape g)"
    using shape T eq by (cases g0; cases "nd_T g0") (auto simp: nd_shape_def)
  then obtain rest where "ndindex (nd_shape g) = (0, 0) # rest"
    using ndindex_nonempty [of "fst (nd_shape g)" "snd (nd_shape g)"] by auto
  then show ?thesis
    using g by (simp add: add_date_label_def subscript_function_def)
qed

subsection \<open>The conversion of integers into float64\<close>

lemma bit_length_le: "0 \<le> a \<Longrightarrow> a < 2 ^ k \<Longrightarrow> bit_length a \<le> k"
proof (induction k arbitrary: a)
  case 0
  then have "a = 0" by simp
  then show ?case by (simp add: bit_length.simps)
next
  case (Suc k)
  show ?case
  proof (cases "a \<le> 0")
    case True
    then show ?thesis by (simp add: bit_length.simps [of a])
  next
    case False
    have "a div 2 < 2 ^ k" "0 \<le> a div 2"
      using Suc.prems by simp_all
    then have "bit_length (a div 2) \<le> k"
      using Suc.IH by blast
    then show ?thesis
      using False by (simp add: bit_length.simps [of a])
  qed
qed

lemma float64_of_int_exact:
  assumes "\<bar>n\<bar> < 2 ^ 53"
  shows "float64_of_int n = Inr (Val n)"
proof -
  have "bit_length \<bar>n\<bar> \<le> 53"
    using assms by (intro bit_length_le) simp_all
  then show ?thesis
    by (simp add: float64_of_int_def Let_def)
qed

lemma float64_of_field_date:
  assumes "valid_date d"
  shows "float64_of_int (year d) = float64_of_field (year d)"
    and "float64_of_int (day d) = float64_of_field (day d)"
proof -
  have m: "1 \<le> month d" "month d \<le> 12"
    using assms by (simp_all add: valid_date_def)
  have "days_in_month (year d) (month d) \<le> 31"
    using month_cases [OF m]
    by (auto simp: days_in_month_def DAYS_IN_MONTH_def)
  then have "\<bar>year d\<bar> < 2 ^ 53" "\<bar>day d\<bar> < 2 ^ 53"
    using assms by (simp_all add: valid_date_def)
  then show "float64_of_int (year d) = float64_of_field (year d)"
    and "float64_of_int (day d) = float64_of_field (day d)"
    by (simp_all add: float64_of_int_exact float64_of_field_def)
qed

subsection \<open>Python's \<open>str\<close> is injective on integers and pairs\<close>

lemma digit_cases:
  assumes "n < 10"
  shows "n \<in> {0, 1, 2, 3, 4, 5, 6, 7, 8, 9 :: nat}"
  using assms unfolding insert_iff empty_iff by presburger

lemma digit_val_digit_char: "n < 10 \<Longrightarrow> digit_val (digit_char n) = n"
  using digit_cases [of n] by (auto simp: digit_val_def digit_char_def)

lemma digit_char_in: "n < 10 \<Longrightarrow> digit_char n \<in> set ''0123456789''"
  using digit_cases [of n] by (auto simp: digit_char_def)

lemma read_nat_snoc: "read_nat (s @ [c]) = 10 * read_nat s + digit_val c"
  by (simp add: read_nat_def)

lemma str_nat_small: "n < 10 \<Longrightarrow> str_nat n = [digit_char n]"
  by (simp add: str_nat.simps [of n])

lemma str_nat_large: "\<not> n < 10 \<Longrightarrow> str_nat n = str_nat (n div 10) @ [digit_char (n mod 10)]"
  by (simp add: str_nat.simps [of n])

lemma read_nat_str_nat: "read_nat (str_nat n) = n"
proof (induction n rule: str_nat.induct)
  case (1 n)
  show ?case
  proof (cases "n < 10")
    case True
    have "read_nat [digit_char n] = digit_val (digit_char n)"
      by (simp add: read_nat_def)
    then show ?thesis
      using True by (simp only: str_nat_small digit_val_digit_char)
  next
    case False
    have ih: "read_nat (str_nat (n div 10)) = n div 10"
      using 1 False by blast
    have "n mod 10 < 10" by simp
    then have dv: "digit_val (digit_char (n mod 10)) = n mod 10"
      by (rule digit_val_digit_char)
    have "read_nat (str_nat n) = 10 * (n div 10) + n mod 10"
      by (simp only: str_nat_large [OF False] read_nat_snoc ih dv)
    then show ?thesis by simp
  qed
qed

lemma str_nat_inj:
  assumes "str_nat n = str_nat m"
  shows "n = m"
proof -
  have "read_nat (str_nat n) = read_nat (str_nat m)"
    by (simp only: assms)
  then show ?thesis
    by (simp only: read_nat_str_nat)
qed

lemma set_str_nat: "set (str_nat n) \<subseteq> set ''0123456789''"
proof (induction n rule: str_nat.induct)
  case (1 n)
  show ?case
  proof (cases "n < 10")
    case True
    then show ?thesis
      using digit_char_in [of n] by (simp add: str_nat_small)
  next
    case False
    then have "set (str_nat (n div 10)) \<subseteq> set ''0123456789''"
      using 1 by blast
    moreover have "digit_char (n mod 10) \<in> set ''0123456789''"
      by (rule digit_char_in) simp
    ultimately show ?thesis
      by (simp add: str_nat_large [OF False])
  qed
qed

lemma str_nat_no_minus: "str_nat n \<noteq> CHR ''-'' # s"
proof
  assume "str_nat n = CHR ''-'' # s"
  then have "CHR ''-'' \<in> set (str_nat n)" by simp
  then have "CHR ''-'' \<in> set ''0123456789''" using set_str_nat [of n] by blast
  then show False by simp
qed

lemma str_int_inj: "str_int i = str_int j \<Longrightarrow> i = j"
proof -
  assume eq: "str_int i = str_int j"
  show "i = j"
  proof (cases "i < 0"; cases "j < 0")
    assume "i < 0" "j < 0"
    then have "nat (- i) = nat (- j)"
      using eq by (simp add: str_int_def str_nat_inj)
    then show ?thesis using \<open>i < 0\<close> \<open>j < 0\<close> by simp
  next
    assume "i < 0" "\<not> j < 0"
    then show ?thesis
      using eq str_nat_no_minus [of "nat j" "str_nat (nat (- i))"] by (simp add: str_int_def)
  next
    assume "\<not> i < 0" "j < 0"
    then show ?thesis
      using eq str_nat_no_minus [of "nat i" "str_nat (nat (- j))"] by (simp add: str_int_def)
  next
    assume "\<not> i < 0" "\<not> j < 0"
    then have "nat i = nat j"
      using eq by (simp add: str_int_def str_nat_inj)
    then show ?thesis using \<open>\<not> i < 0\<close> \<open>\<not> j < 0\<close> by simp
  qed
qed

lemma comma_not_in_str_int: "CHR '','' \<notin> set (str_int i)"
proof
  assume "CHR '','' \<in> set (str_int i)"
  then have "CHR '','' \<in> set (str_nat (nat i)) \<or> CHR '','' \<in> set (str_nat (nat (- i)))"
    by (simp add: str_int_def split: if_splits)
  then have "CHR '','' \<in> set ''0123456789''"
    using set_str_nat [of "nat i"] set_str_nat [of "nat (- i)"] by blast
  then show False by simp
qed

lemma split_at_separator:
  assumes "xs @ c # ys = xs' @ c # ys'" "c \<notin> set xs" "c \<notin> set xs'"
  shows "xs = xs' \<and> ys = ys'"
  using assms
proof (induction xs arbitrary: xs')
  case Nil
  then show ?case by (cases xs') auto
next
  case (Cons x xs)
  then show ?case by (cases xs') auto
qed

lemma str_tuple2_inj: "str_tuple2 p = str_tuple2 q \<Longrightarrow> p = q"
proof -
  assume "str_tuple2 p = str_tuple2 q"
  then have eq: "str_int (fst p) @ CHR '','' # (CHR '' '' # str_int (snd p) @ '')'') =
                 str_int (fst q) @ CHR '','' # (CHR '' '' # str_int (snd q) @ '')'')"
    by (simp add: str_tuple2_def)
  have "str_int (fst p) = str_int (fst q) \<and>
        CHR '' '' # str_int (snd p) @ '')'' = CHR '' '' # str_int (snd q) @ '')''"
    by (rule split_at_separator [OF eq]) (simp_all add: comma_not_in_str_int)
  then have "fst p = fst q" "snd p = snd q"
    by (simp_all add: str_int_inj)
  then show "p = q"
    by (simp add: prod_eq_iff)
qed


subsection \<open>Searching a grid for the cells of a group\<close>

lemma np_max_eq:
  assumes "zz \<noteq> []"
  shows "np_max zz = Inr (Max (set zz))"
proof (cases zz)
  case Nil
  then show ?thesis using assms by simp
next
  case (Cons a list)
  show ?thesis
    unfolding Cons by (simp only: np_max.simps Max.set_eq_fold)
qed

lemma np_min_eq:
  assumes "zz \<noteq> []"
  shows "np_min zz = Inr (Min (set zz))"
proof (cases zz)
  case Nil
  then show ?thesis using assms by simp
next
  case (Cons a list)
  show ?thesis
    unfolding Cons by (simp only: np_min.simps Min.set_eq_fold)
qed

lemma set_nonzero_rows:
  "set (fst (nonzero b)) = {i. i < length b \<and> (\<exists>j < length (b ! i). b ! i ! j)}"
  by (auto simp: nonzero_def Let_def image_iff)

lemma set_nonzero_cols:
  "set (snd (nonzero b)) = {j. \<exists>i < length b. j < length (b ! i) \<and> b ! i ! j}"
  by (fastforce simp: nonzero_def Let_def image_iff)

lemma nd_eq_nth:
  "i < length g \<Longrightarrow> j < length (g ! i) \<Longrightarrow> nd_eq g v ! i ! j \<longleftrightarrow> g ! i ! j = Val v"
  by (simp add: nd_eq_def)

lemma length_nd_eq: "length (nd_eq g v) = length g"
  by (simp add: nd_eq_def)

lemma length_nd_eq_row: "i < length g \<Longrightarrow> length (nd_eq g v ! i) = length (g ! i)"
  by (simp add: nd_eq_def)

lemma week_axis_hits:
  assumes "date_grid cast dates data flip dt = Inr g"
  shows "set (if flip then snd (nonzero (nd_eq g v)) else fst (nonzero (nd_eq g v))) =
           {w. w < card (iso_week ` set dates) \<and> (\<exists>k < 7. cell_at flip g w k = Val v)}"
proof -
  let ?n = "card (iso_week ` set dates)"
  obtain g0 where g0: "date_grid cast dates data False dt = Inr g0"
    using date_grid_False_exists [OF assms] by blast
  note shape = date_grid_False_shape [OF g0]
  have eq: "g = (if flip then nd_T g0 else g0)"
    using assms g0 by (subst (asm) date_grid_flip) simp
  show ?thesis
  proof (cases flip)
    case False
    then have g: "g = g0" using eq by simp
    have rows: "\<And>i. i < length g0 \<Longrightarrow> length (g0 ! i) = 7"
      using shape by simp
    show ?thesis
      using False shape rows
      by (auto simp: g set_nonzero_rows length_nd_eq length_nd_eq_row nd_eq_nth cell_at_def)
  next
    case True
    then have g: "g = nd_T g0" using eq by simp
    have T: "length (nd_T g0) = 7 \<and> (\<forall>row \<in> set (nd_T g0). length row = length g0)"
      using shape by (intro nd_T_shape) auto
    then have rows: "\<And>i. i < 7 \<Longrightarrow> length (nd_T g0 ! i) = ?n"
      using shape by simp
    show ?thesis
      using True T rows
      by (auto simp: g set_nonzero_cols length_nd_eq length_nd_eq_row nd_eq_nth cell_at_def)
  qed
qed

lemma last_occurrence_exists:
  "d \<in> set xs \<Longrightarrow> \<exists>j < length xs. xs ! j = d \<and> (\<forall>k. j < k \<and> k < length xs \<longrightarrow> xs ! k \<noteq> d)"
proof (induction xs)
  case Nil
  then show ?case by simp
next
  case (Cons x xs)
  show ?case
  proof (cases "d \<in> set xs")
    case True
    then obtain j where j: "j < length xs" "xs ! j = d"
      "\<forall>k. j < k \<and> k < length xs \<longrightarrow> xs ! k \<noteq> d"
      using Cons.IH by blast
    have "\<forall>k. Suc j < k \<and> k < length (x # xs) \<longrightarrow> (x # xs) ! k \<noteq> d"
    proof (intro allI impI)
      fix k assume k: "Suc j < k \<and> k < length (x # xs)"
      then obtain k' where k': "k = Suc k'" by (cases k) auto
      then show "(x # xs) ! k \<noteq> d" using j(3) k by simp
    qed
    then show ?thesis
      using j(1,2) by (intro exI [of _ "Suc j"]) simp
  next
    case False
    then have x: "x = d" using Cons.prems by simp
    have "\<forall>k. 0 < k \<and> k < length (x # xs) \<longrightarrow> (x # xs) ! k \<noteq> d"
    proof (intro allI impI)
      fix k assume k: "0 < k \<and> k < length (x # xs)"
      then obtain k' where k': "k = Suc k'" by (cases k) auto
      then have "xs ! k' \<in> set xs" using k by simp
      then show "(x # xs) ! k \<noteq> d" using False k' by auto
    qed
    then show ?thesis
      using x by (intro exI [of _ 0]) simp
  qed
qed

lemma blank_not_Val: "w < n \<Longrightarrow> k < 7 \<Longrightarrow> blank_grid n dt ! w ! k \<noteq> Val v"
  by (cases dt) (simp_all add: blank_grid_nth missing_marker_def)

lemma cell_value_written:
  assumes "dates \<noteq> []" "length data = length dates" "cast_each cast data = Inr cs"
    and "date_grid cast dates data flip dt = Inr g"
    and "w < card (iso_week ` set dates)" "k < 7" "cell_at flip g w k = Val v"
  shows "\<exists>i < length dates. grid_row dates (dates ! i) = w \<and> grid_col (dates ! i) = k \<and>
                              cs ! i = Val v"
proof -
  let ?n = "card (iso_week ` set dates)"
  let ?ws = "writes dates cs"
  have len: "length cs = length dates"
    using length_cast_each [OF assms(3)] assms(2) by simp
  have g0: "date_grid cast dates data False dt = Inr (put_all (blank_grid ?n dt) ?ws)"
    by (rule date_grid_parallel [OF assms(1,2,3)])
  have cell: "put_all (blank_grid ?n dt) ?ws ! w ! k = Val v"
    using cell_at_flip [OF g0 assms(4,5,6)] assms(7) by simp
  have bounds: "w < length (blank_grid ?n dt)" "k < length (blank_grid ?n dt ! w)"
    using assms(5,6) by (simp_all add: blank_grid_def)
  have "last_write ?ws w k \<noteq> None"
  proof
    assume "last_write ?ws w k = None"
    then have "put_all (blank_grid ?n dt) ?ws ! w ! k = blank_grid ?n dt ! w ! k"
      by (simp add: put_all_nth [OF bounds])
    then show False
      using cell blank_not_Val [OF assms(5,6), of dt v] by simp
  qed
  then obtain u where u: "last_write ?ws w k = Some u"
    by blast
  then have "put_all (blank_grid ?n dt) ?ws ! w ! k = u"
    by (simp add: put_all_nth [OF bounds])
  then have "u = Val v"
    using cell by simp
  then obtain i where i: "i < length ?ws" and wi: "?ws ! i = (w, k, Val v)"
    using last_write_Some [OF u] by blast
  have il: "i < length dates"
    using i len by (simp add: length_writes)
  have "?ws ! i = (grid_row dates (dates ! i), grid_col (dates ! i), cs ! i)"
    by (rule writes_nth [OF len il])
  then have "grid_row dates (dates ! i) = w \<and> grid_col (dates ! i) = k \<and> cs ! i = Val v"
    using wi by simp
  then show ?thesis
    using il by blast
qed

lemma date_cell_holds_group:
  assumes "dates \<noteq> []" "\<forall>d \<in> set dates. valid_date d" "\<And>v. cast v = Inr (Val v)"
    and "date_grid cast dates (map f dates) flip dt = Inr g" "d \<in> set dates"
  shows "cell_at flip g (grid_row dates d) (grid_col d) = Val (f d)"
proof -
  obtain j where j: "j < length dates" and dj: "dates ! j = d"
    and last: "\<forall>k. j < k \<and> k < length dates \<longrightarrow> dates ! k \<noteq> dates ! j"
    using last_occurrence_exists [OF assms(5)] by blast
  have len: "length (map f dates) = length dates"
    by simp
  have cs: "cast_each cast (map f dates) = Inr (map Val (map f dates))"
    by (rule cast_each_exact) (rule assms(3))
  obtain g' where g': "date_grid cast dates (map f dates) flip dt = Inr g'"
    and c: "cell_at flip g' (grid_row dates (dates ! j)) (grid_col (dates ! j)) =
              map Val (map f dates) ! j"
    using last_occurrence_value [OF assms(1) len assms(2) j last cs, of flip dt] by blast
  have "g' = g"
    using g' assms(4) by simp
  moreover have "map Val (map f dates) ! j = Val (f d)"
    using j dj by simp
  ultimately show ?thesis
    using c dj by simp
qed

lemma group_cells:
  assumes "dates \<noteq> []" "\<forall>d \<in> set dates. valid_date d" "\<And>v. cast v = Inr (Val v)"
    and "date_grid cast dates (map f dates) flip dt = Inr g"
  shows "{w. w < card (iso_week ` set dates) \<and> (\<exists>k < 7. cell_at flip g w k = Val v)} =
           grid_row dates ` {d \<in> set dates. f d = v}"
    (is "?L = ?R")
proof (rule set_eqI)
  fix w
  show "w \<in> ?L \<longleftrightarrow> w \<in> ?R"
  proof
    assume "w \<in> ?L"
    then obtain k where w: "w < card (iso_week ` set dates)" and k: "k < 7"
      and c: "cell_at flip g w k = Val v"
      by blast
    have len: "length (map f dates) = length dates"
      by simp
    have cs: "cast_each cast (map f dates) = Inr (map Val (map f dates))"
      by (rule cast_each_exact) (rule assms(3))
    obtain i where i: "i < length dates" and r: "grid_row dates (dates ! i) = w"
      and v: "map Val (map f dates) ! i = Val v"
      using cell_value_written [OF assms(1) len cs assms(4) w k c] by blast
    have "dates ! i \<in> set dates" "f (dates ! i) = v"
      using i v by simp_all
    then have "dates ! i \<in> {d \<in> set dates. f d = v}"
      by simp
    then show "w \<in> ?R"
      using r by blast
  next
    assume "w \<in> ?R"
    then obtain d where d: "d \<in> set dates" and fd: "f d = v" and w: "w = grid_row dates d"
      by blast
    have "cell_at flip g w (grid_col d) = Val v"
      using date_cell_holds_group [OF assms d] fd w by simp
    moreover have "w < card (iso_week ` set dates)"
      using grid_row_less [OF d] w by simp
    moreover have "grid_col d < 7"
      by (rule grid_col_less)
    ultimately show "w \<in> ?L"
      by blast
  qed
qed

lemma collect_locs_total:
  "\<forall>k \<in> set ks. f k = Inr (h k) \<Longrightarrow> collect_locs f ks = Inr (map (\<lambda>k. (k, h k)) ks)"
  by (induction ks) auto

lemma set_group_rows: "set (group_rows dates key m) = grid_row dates ` {d \<in> set dates. key d = m}"
  by (auto simp: group_rows_def)

lemma group_rows_nonempty: "m \<in> key ` set dates \<Longrightarrow> group_rows dates key m \<noteq> []"
  by (auto simp: group_rows_def filter_empty_conv)

subsection \<open>The location of a group label\<close>

lemma group_hits:
  assumes "dates \<noteq> []" "\<forall>d \<in> set dates. valid_date d"
    and "\<And>v. cast v = Inr (Val v)" "date_grid cast dates (map f dates) flip dt = Inr g"
    and "m \<in> key ` set dates" "\<forall>d \<in> set dates. f d = v \<longleftrightarrow> key d = m"
  defines "zz \<equiv> (if flip then snd (nonzero (nd_eq g v)) else fst (nonzero (nd_eq g v)))"
  shows "zz \<noteq> [] \<and> set zz = set (group_rows dates key m)"
proof -
  have "set zz = {w. w < card (iso_week ` set dates) \<and> (\<exists>k < 7. cell_at flip g w k = Val v)}"
    unfolding zz_def by (rule week_axis_hits [OF assms(4)])
  also have "\<dots> = grid_row dates ` {d \<in> set dates. f d = v}"
    by (rule group_cells [OF assms(1,2,3,4)])
  also have "{d \<in> set dates. f d = v} = {d \<in> set dates. key d = m}"
    using assms(6) by blast
  finally have eq: "set zz = set (group_rows dates key m)"
    by (simp add: set_group_rows)
  have "group_rows dates key m \<noteq> []"
    by (rule group_rows_nonempty [OF assms(5)])
  then have "set zz \<noteq> {}"
    using eq by simp
  then show ?thesis
    using eq by auto
qed

lemma month_loc_eq:
  assumes "dates \<noteq> []" "\<forall>d \<in> set dates. valid_date d"
    and "date_grid astype_object dates (map (\<lambda>d. str_tuple2 (year d, month d)) dates) flip Object = Inr g"
    and "m \<in> set (month_years dates)"
  shows "month_loc g flip m =
           Inr ((of_nat (Min (set (group_rows dates (\<lambda>d. (year d, month d)) m))) +
                 of_nat (Max (set (group_rows dates (\<lambda>d. (year d, month d)) m)))) / 2)"
proof -
  let ?zz = "if flip then snd (nonzero (nd_eq g (str_tuple2 m)))
             else fst (nonzero (nd_eq g (str_tuple2 m)))"
  have m: "m \<in> (\<lambda>d. (year d, month d)) ` set dates"
    using assms(4) by (simp add: month_years_def)
  have inj: "\<forall>d \<in> set dates. str_tuple2 (year d, month d) = str_tuple2 m \<longleftrightarrow> (year d, month d) = m"
    using str_tuple2_inj by blast
  have zz: "?zz \<noteq> [] \<and> set ?zz = set (group_rows dates (\<lambda>d. (year d, month d)) m)"
    by (rule group_hits [OF assms(1,2) _ assms(3) m inj]) (simp add: astype_object_def)
  have "month_loc g flip m =
          (case np_max ?zz of
             Inl e \<Rightarrow> Inl e
           | Inr hi \<Rightarrow> (case np_min ?zz of Inl e \<Rightarrow> Inl e | Inr lo \<Rightarrow> Inr (of_nat (hi + lo) / 2)))"
    by (simp add: month_loc_def case_prod_beta Let_def)
  also have "\<dots> = Inr (of_nat (Max (set ?zz) + Min (set ?zz)) / 2)"
    using zz by (simp add: np_max_eq np_min_eq)
  finally show ?thesis
    using zz by (simp add: add.commute)
qed

lemma year_loc_eq:
  assumes "dates \<noteq> []" "\<forall>d \<in> set dates. valid_date d"
    and "date_grid float64_of_field dates (map year dates) flip Float64 = Inr g"
    and "y \<in> set (map year dates)"
  shows "year_loc g flip y =
           Inr ((of_nat (Min (set (group_rows dates year y))) +
                 of_nat (Max (set (group_rows dates year y))) + 1) / 2)"
proof -
  let ?zz = "if flip then snd (nonzero (nd_eq g y)) else fst (nonzero (nd_eq g y))"
  have y: "y \<in> year ` set dates"
    using assms(4) by simp
  have zz: "?zz \<noteq> [] \<and> set ?zz = set (group_rows dates year y)"
    by (rule group_hits [OF assms(1,2) _ assms(3) y]) (simp_all add: float64_of_field_def)
  have "year_loc g flip y =
          (case np_max ?zz of
             Inl e \<Rightarrow> Inl e
           | Inr hi \<Rightarrow> (case np_min ?zz of Inl e \<Rightarrow> Inl e | Inr lo \<Rightarrow> Inr (of_nat (hi + 1 + lo) / 2)))"
    by (simp add: year_loc_def case_prod_beta Let_def)
  also have "\<dots> = Inr (of_nat (Max (set ?zz) + 1 + Min (set ?zz)) / 2)"
    using zz by (simp add: np_max_eq np_min_eq)
  finally show ?thesis
    using zz by (simp add: add.commute add.left_commute)
qed

lemma month_locs_eq:
  assumes "dates \<noteq> []" "\<forall>d \<in> set dates. valid_date d"
  shows "month_locs dates flip =
           Inr (map (\<lambda>m. (m, (of_nat (Min (set (group_rows dates (\<lambda>d. (year d, month d)) m))) +
                             of_nat (Max (set (group_rows dates (\<lambda>d. (year d, month d)) m)))) / 2))
                  (sort (remdups (month_years dates))))"
proof -
  have data: "map str_tuple2 (month_years dates) = map (\<lambda>d. str_tuple2 (year d, month d)) dates"
    by (simp add: month_years_def)
  obtain g where g: "date_grid astype_object dates (map (\<lambda>d. str_tuple2 (year d, month d)) dates) flip Object = Inr g"
    using date_grid_returns [OF assms(1) _ cast_each_object,
        of "map (\<lambda>d. str_tuple2 (year d, month d)) dates"]
    by auto
  have "collect_locs (month_loc g flip) (sort (remdups (month_years dates))) =
          Inr (map (\<lambda>m. (m, (of_nat (Min (set (group_rows dates (\<lambda>d. (year d, month d)) m))) +
                            of_nat (Max (set (group_rows dates (\<lambda>d. (year d, month d)) m)))) / 2))
                 (sort (remdups (month_years dates))))"
    by (rule collect_locs_total) (simp add: month_loc_eq [OF assms g])
  then show ?thesis
    using g by (simp add: month_locs_def data)
qed

lemma year_locs_eq:
  assumes "dates \<noteq> []" "\<forall>d \<in> set dates. valid_date d"
  shows "year_locs dates flip =
           Inr (map (\<lambda>y. (y, (of_nat (Min (set (group_rows dates year y))) +
                             of_nat (Max (set (group_rows dates year y))) + 1) / 2))
                  (sort (remdups (map year dates))))"
proof -
  obtain g where g: "date_grid float64_of_field dates (map year dates) flip Float64 = Inr g"
    using date_grid_returns [OF assms(1) _ cast_each_field, of "map year dates"] by auto
  have "collect_locs (year_loc g flip) (sort (remdups (map year dates))) =
          Inr (map (\<lambda>y. (y, (of_nat (Min (set (group_rows dates year y))) +
                            of_nat (Max (set (group_rows dates year y))) + 1) / 2))
                 (sort (remdups (map year dates))))"
    by (rule collect_locs_total) (simp add: year_loc_eq [OF assms g])
  then show ?thesis
    using g by (simp add: year_locs_def)
qed

lemma date_grid_dims:
  assumes "date_grid cast dates data flip dt = Inr g"
  shows "(if flip then snd (nd_shape g) else length g) = card (iso_week ` set dates)"
proof -
  obtain g0 where g0: "date_grid cast dates data False dt = Inr g0"
    using date_grid_False_exists [OF assms] by blast
  note shape = date_grid_False_shape [OF g0]
  have eq: "g = (if flip then nd_T g0 else g0)"
    using assms g0 by (subst (asm) date_grid_flip) simp
  have T: "length (nd_T g0) = 7 \<and> (\<forall>row \<in> set (nd_T g0). length row = length g0)"
    using shape by (intro nd_T_shape) auto
  show ?thesis
    using shape T eq by (cases "nd_T g0") (auto simp: nd_shape_def)
qed

subsection \<open>Converted values in the grid\<close>

lemma date_grid_unconvertible:
  assumes "dates \<noteq> []" "v \<in> set data" "cast v = Inl e"
  shows "\<exists>e'. date_grid cast dates data flip dt = Inl e'"
proof (cases "cast_each cast data")
  case (Inl e')
  then show ?thesis
    using date_grid_cast_error [OF assms(1) Inl] by blast
next
  case (Inr cs)
  obtain i where i: "i < length data" "data ! i = v"
    using assms(2) by (auto simp: in_set_conv_nth)
  then have "cast v = Inr (cs ! i)"
    using cast_each_nth [OF Inr, of i] by simp
  then show ?thesis
    using assms(3) by simp
qed

lemma last_occurrence_converted:
  assumes "dates \<noteq> []" "length data = length dates" "\<forall>d \<in> set dates. valid_date d"
    and "i < length dates" "\<forall>j. i < j \<and> j < length dates \<longrightarrow> dates ! j \<noteq> dates ! i"
    and "\<forall>v \<in> set data. \<exists>c. cast v = Inr c"
  shows "\<exists>g c. date_grid cast dates data flip dt = Inr g \<and> cast (data ! i) = Inr c \<and>
               cell_at flip g (grid_row dates (dates ! i)) (grid_col (dates ! i)) = c"
proof -
  obtain cs where cs: "cast_each cast data = Inr cs"
    using cast_each_total [OF assms(6)] by blast
  have "cast (data ! i) = Inr (cs ! i)"
    using cast_each_nth [OF cs, of i] assms(2,4) by simp
  then show ?thesis
    using last_occurrence_value [OF assms(1-5) cs, of flip dt] by blast
qed

lemma date_grid_unconvertible_string:
  assumes "cast ''a'' = Inl ValueError"
  shows "date_grid cast [\<lparr>year = 2021, month = 1, day = 1\<rparr>] [''a''] flip Float64 = Inl ValueError"
  by (rule date_grid_cast_error) (simp_all add: assms)

text \<open>
  C8, as the code behaves: for an empty date list \<open>date_grid\<close> returns no grid. The
  two-dimensional slice of the one-dimensional empty array raises \<open>IndexError\<close>, whatever
  the values, their conversion, the orientation and the dtype are.
\<close>

theorem date_grid_empty_raises: "date_grid cast [] data flip dt = Inl IndexError"
  by (simp add: date_grid_def)

theorem date_grid_empty_counterexample:
  "date_grid float64_of_int [] [] False Float64 \<noteq> Inr []"
  by (simp add: date_grid_def)

text \<open>
  C2: every grid that \<open>date_grid\<close> returns for a non-empty date list has one row per
  distinct (ISO year, ISO week) pair of the input and 7 columns; with \<open>flip\<close> it has 7 rows
  and one column per distinct pair. A grid is returned for a parallel list of values that
  can all be converted into the dtype of the grid.
\<close>

theorem date_grid_shape:
  assumes "dates \<noteq> []"
  shows "(length data = length dates \<and> (\<forall>v \<in> set data. \<exists>c. cast v = Inr c) \<longrightarrow>
            (\<exists>g. date_grid cast dates data flip dt = Inr g)) \<and>
         (\<forall>g. date_grid cast dates data flip dt = Inr g \<longrightarrow>
            nd_shape g = (if flip then (7, card (iso_week ` set dates))
                          else (card (iso_week ` set dates), 7)) \<and>
            (\<forall>row \<in> set g. length row = snd (nd_shape g)))"
proof (intro conjI impI allI)
  assume a: "length data = length dates \<and> (\<forall>v \<in> set data. \<exists>c. cast v = Inr c)"
  then obtain cs where "cast_each cast data = Inr cs"
    using cast_each_total [of data cast] by blast
  then show "\<exists>g. date_grid cast dates data flip dt = Inr g"
    using date_grid_parallel [OF assms, of data cast cs dt] a by (subst date_grid_flip) simp
next
  fix g' assume g': "date_grid cast dates data flip dt = Inr g'"
  then obtain g where g: "date_grid cast dates data False dt = Inr g"
    using date_grid_False_exists by blast
  note shape = date_grid_False_shape [OF g]
  have eq: "g' = (if flip then nd_T g else g)"
    using g g' by (subst (asm) (2) date_grid_flip) simp
  have T: "length (nd_T g) = 7 \<and> (\<forall>row \<in> set (nd_T g). length row = length g)"
    using shape by (intro nd_T_shape) auto
  have neT: "nd_T g \<noteq> []"
    using T by auto
  show "nd_shape g' = (if flip then (7, card (iso_week ` set dates))
                       else (card (iso_week ` set dates), 7))"
    using shape T neT eq by (cases g; cases "nd_T g") (auto simp: nd_shape_def)
  then show "\<forall>row \<in> set g'. length row = snd (nd_shape g')"
    using shape T eq by auto
qed

theorem date_grid_shape_witness:
  "[\<lparr>year = 2021, month = 1, day = 1\<rparr>, \<lparr>year = 2021, month = 1, day = 8\<rparr>] \<noteq> [] \<and>
   (\<exists>g. date_grid float64_of_int
           [\<lparr>year = 2021, month = 1, day = 1\<rparr>, \<lparr>year = 2021, month = 1, day = 8\<rparr>]
           [5, 10] False Float64 = Inr g \<and> nd_shape g = (2, 7))"
proof -
  let ?D = "[\<lparr>year = 2021, month = 1, day = 1\<rparr>, \<lparr>year = 2021, month = 1, day = 8\<rparr>]"
  have ne: "?D \<noteq> []" by simp
  have "distinct_weeks ?D = [(2020, 53), (2021, 1)]"
    by code_simp
  then have c: "card (iso_week ` set ?D) = 2"
    using length_distinct_weeks [of ?D] by simp
  have conv: "\<forall>v \<in> set [5, 10]. \<exists>c. float64_of_int v = Inr c"
    by (simp add: float64_of_int_exact)
  show ?thesis
    using date_grid_shape [OF ne, of "[5, 10]" float64_of_int False Float64] c conv by auto
qed

text \<open>
  C3: the grid built with \<open>flip = True\<close> is the transpose of the grid built with
  \<open>flip = False\<close>, and the transpose of the former is the latter; where one call raises,
  the other raises the same error.
\<close>

theorem date_grid_flip_transpose:
  "date_grid cast dates data True dt = map_sum id nd_T (date_grid cast dates data False dt) \<and>
   date_grid cast dates data False dt = map_sum id nd_T (date_grid cast dates data True dt)"
proof (cases "date_grid cast dates data False dt")
  case (Inl e)
  then show ?thesis by (subst (1 4) date_grid_flip) simp
next
  case (Inr g)
  have "nd_T (nd_T g) = g"
    using date_grid_False_shape [OF Inr] by (intro nd_T_T [where c = 7]) auto
  then show ?thesis
    using Inr by (subst (1 4) date_grid_flip) simp
qed

text \<open>
  C7: in every grid that \<open>date_grid\<close> returns, a cell to which no input date maps holds
  the missing marker: not-a-number for the dtype \<open>float64\<close>, the unset marker \<open>None\<close>
  for the dtype \<open>object\<close>.
\<close>

theorem unset_cells_hold_missing_marker:
  assumes "date_grid cast dates data flip dt = Inr g"
    and "w < card (iso_week ` set dates)" "k < 7"
    and "\<forall>d \<in> set dates. (grid_row dates d, grid_col d) \<noteq> (w, k)"
  shows "cell_at flip g w k = (case dt of Float64 \<Rightarrow> NaN | Object \<Rightarrow> PyNone)"
proof -
  obtain g0 where g0: "date_grid cast dates data False dt = Inr g0"
    using date_grid_False_exists [OF assms(1)] by blast
  obtain cs where cs: "length cs = length dates"
    and put: "g0 = put_all (blank_grid (card (iso_week ` set dates)) dt) (writes dates cs)"
    using date_grid_writes [OF g0] by blast
  have "last_write (writes dates cs) w k = None"
    unfolding last_write_None using assms(4) cs
    by (auto simp: length_writes writes_nth)
  then have "g0 ! w ! k = blank_grid (card (iso_week ` set dates)) dt ! w ! k"
    unfolding put using assms(2,3) by (subst put_all_nth) (simp_all add: blank_grid_def)
  then have "g0 ! w ! k = missing_marker dt"
    using assms(2,3) by (simp add: blank_grid_nth)
  then show ?thesis
    using cell_at_flip [OF g0 assms(1) assms(2,3)] by (simp add: missing_marker_def)
qed

theorem unset_cells_hold_missing_marker_witness:
  "date_grid float64_of_int
     [\<lparr>year = 2021, month = 1, day = 1\<rparr>, \<lparr>year = 2021, month = 1, day = 8\<rparr>]
     [5, 10] False Float64 =
     Inr [[NaN, NaN, NaN, NaN, Val 5, NaN, NaN], [NaN, NaN, NaN, NaN, Val 10, NaN, NaN]] \<and>
   cell_at False [[NaN, NaN, NaN, NaN, Val 5, NaN, NaN], [NaN, NaN, NaN, NaN, Val 10, NaN, NaN]] 1 3
     = (NaN :: int cell)"
proof -
  let ?D = "[\<lparr>year = 2021, month = 1, day = 1\<rparr>, \<lparr>year = 2021, month = 1, day = 8\<rparr>]"
  let ?G = "[[NaN, NaN, NaN, NaN, Val 5, NaN, NaN], [NaN, NaN, NaN, NaN, Val 10, NaN, NaN]]
              :: int cell list list"
  have g: "date_grid float64_of_int ?D [5, 10] False Float64 = Inr ?G"
    by code_simp
  have "distinct_weeks ?D = [(2020, 53), (2021, 1)]"
    by code_simp
  then have c: "(1 :: nat) < card (iso_week ` set ?D)"
    using length_distinct_weeks [of ?D] by simp
  have k: "(3 :: nat) < 7" by simp
  have free: "\<forall>d \<in> set ?D. (grid_row ?D d, grid_col d) \<noteq> (1, 3)"
    by code_simp
  show ?thesis
    using g unset_cells_hold_missing_marker [OF g c k free] by simp
qed

text \<open>
  C1, as the code behaves: for a non-empty list of dates with a parallel list of values,
  \<open>date_grid\<close> raises if a value cannot be converted into the dtype of the grid; otherwise
  it returns a grid in which the cell of each date (row: the position of its (ISO year, ISO
  week) pair among the distinct pairs of the input in ascending order; column: ISO weekday
  minus 1) holds the converted value paired with the last occurrence of that date. The claim
  as stated fails for a date that occurs twice with different values: the earlier value is
  not in the grid.
\<close>

theorem date_grid_cell_value:
  assumes "dates \<noteq> []" "length data = length dates" "\<forall>d \<in> set dates. valid_date d"
    and "i < length dates" "\<forall>j. i < j \<and> j < length dates \<longrightarrow> dates ! j \<noteq> dates ! i"
  shows "((\<exists>v \<in> set data. \<exists>e. cast v = Inl e) \<longrightarrow>
            (\<exists>e. date_grid cast dates data flip dt = Inl e)) \<and>
         ((\<forall>v \<in> set data. \<exists>c. cast v = Inr c) \<longrightarrow>
            (\<exists>g c. date_grid cast dates data flip dt = Inr g \<and> cast (data ! i) = Inr c \<and>
                   cell_at flip g (grid_row dates (dates ! i)) (grid_col (dates ! i)) = c)) \<and>
         grid_row dates (dates ! i) = index_of (iso_week (dates ! i))
                                        (sorted_list_of_set (iso_week ` set dates)) \<and>
         int (grid_col (dates ! i)) = iso_weekday (dates ! i) - 1"
proof (intro conjI impI)
  assume "\<exists>v \<in> set data. \<exists>e. cast v = Inl e"
  then obtain v e where v: "v \<in> set data" and e: "cast v = Inl e"
    by blast
  show "\<exists>e. date_grid cast dates data flip dt = Inl e"
    by (rule date_grid_unconvertible [where cast = cast and v = v, OF assms(1) v e])
next
  assume conv: "\<forall>v \<in> set data. \<exists>c. cast v = Inr c"
  show "\<exists>g c. date_grid cast dates data flip dt = Inr g \<and> cast (data ! i) = Inr c \<and>
                   cell_at flip g (grid_row dates (dates ! i)) (grid_col (dates ! i)) = c"
    by (rule last_occurrence_converted [OF assms conv])
next
  show "grid_row dates (dates ! i) = index_of (iso_week (dates ! i))
                                        (sorted_list_of_set (iso_week ` set dates))"
    by (simp add: grid_row_def distinct_weeks_def)
next
  show "int (grid_col (dates ! i)) = iso_weekday (dates ! i) - 1"
    using iso_weekday_range [of "dates ! i"] by (simp add: grid_col_def)
qed

theorem date_grid_cell_value_witness:
  "date_grid float64_of_int
     [\<lparr>year = 2021, month = 1, day = 1\<rparr>, \<lparr>year = 2021, month = 1, day = 8\<rparr>]
     [5, 2 ^ 53 + 1] False Float64 =
     Inr [[NaN, NaN, NaN, NaN, Val 5, NaN, NaN],
          [NaN, NaN, NaN, NaN, Val 9007199254740992, NaN, NaN]] \<and>
   float64_of_int (2 ^ 53 + 1) = Inr (Val 9007199254740992) \<and>
   grid_row [\<lparr>year = 2021, month = 1, day = 1\<rparr>, \<lparr>year = 2021, month = 1, day = 8\<rparr>]
     \<lparr>year = 2021, month = 1, day = 8\<rparr> = 1 \<and>
   grid_col \<lparr>year = 2021, month = 1, day = 8\<rparr> = 4 \<and>
   cell_at False [[NaN, NaN, NaN, NaN, Val 5, NaN, NaN],
                  [NaN, NaN, NaN, NaN, Val 9007199254740992, NaN, NaN]] 1 4
     = (Val 9007199254740992 :: int cell)"
proof -
  let ?D = "[\<lparr>year = 2021, month = 1, day = 1\<rparr>, \<lparr>year = 2021, month = 1, day = 8\<rparr>]"
  let ?G = "[[NaN, NaN, NaN, NaN, Val 5, NaN, NaN],
             [NaN, NaN, NaN, NaN, Val 9007199254740992, NaN, NaN]] :: int cell list list"
  have ne: "?D \<noteq> []" by simp
  have len: "length [5, 2 ^ 53 + 1 :: int] = length ?D" by simp
  have valid: "\<forall>d \<in> set ?D. valid_date d" by code_simp
  have i: "1 < length ?D" by simp
  have last: "\<forall>j. 1 < j \<and> j < length ?D \<longrightarrow> ?D ! j \<noteq> ?D ! 1" by simp
  have big: "float64_of_int (2 ^ 53 + 1) = Inr (Val 9007199254740992)" by code_simp
  have conv: "\<forall>v \<in> set [5, 2 ^ 53 + 1]. \<exists>c. float64_of_int v = Inr c"
    using big by (simp add: float64_of_int_exact)
  have g: "date_grid float64_of_int ?D [5, 2 ^ 53 + 1] False Float64 = Inr ?G" by code_simp
  have r: "grid_row ?D (?D ! 1) = 1" by code_simp
  have k: "grid_col (?D ! 1) = 4" by code_simp
  obtain g' c where g': "date_grid float64_of_int ?D [5, 2 ^ 53 + 1] False Float64 = Inr g'"
    and cc: "float64_of_int ([5, 2 ^ 53 + 1] ! 1) = Inr c"
    and c: "cell_at False g' (grid_row ?D (?D ! 1)) (grid_col (?D ! 1)) = c"
    using date_grid_cell_value [OF ne len valid i last, of float64_of_int False Float64,
        THEN conjunct2, THEN conjunct1, THEN mp, OF conv]
    by (elim exE conjE)
  have "g' = ?G"
    using g g' by simp
  moreover have "c = Val 9007199254740992"
    using cc big by simp
  ultimately show ?thesis
    using c g r k big by simp
qed

theorem date_grid_cell_value_counterexample:
  "date_grid float64_of_int
     [\<lparr>year = 2021, month = 1, day = 1\<rparr>, \<lparr>year = 2021, month = 1, day = 1\<rparr>]
     [5, 10] False Float64 = Inr [[NaN, NaN, NaN, NaN, Val 10, NaN, NaN]] \<and>
   float64_of_int 5 = Inr (Val 5) \<and>
   grid_row [\<lparr>year = 2021, month = 1, day = 1\<rparr>, \<lparr>year = 2021, month = 1, day = 1\<rparr>]
     \<lparr>year = 2021, month = 1, day = 1\<rparr> = 0 \<and>
   grid_col \<lparr>year = 2021, month = 1, day = 1\<rparr> = 4 \<and>
   [[NaN, NaN, NaN, NaN, Val 10, NaN, NaN]] ! 0 ! 4 \<noteq> Val ([5 :: int, 10] ! 0)"
  by code_simp

text \<open>
  C9, as the code behaves: duplicate dates are not merged before the scatter, and the last
  write wins: when a date occurs at the positions \<open>i < j\<close> and \<open>j\<close> is its last occurrence,
  the cell of that date holds the value paired with position \<open>j\<close> as converted into the
  dtype of the grid, which for \<open>float64\<close> is not the paired value itself when that is an
  integer of more than 53 bits; if a value cannot be converted, \<open>date_grid\<close> raises.
\<close>

theorem duplicate_dates_last_write_wins:
  assumes "length data = length dates" "\<forall>d \<in> set dates. valid_date d"
    and "i < j" "j < length dates" "dates ! i = dates ! j"
    and "\<forall>k. j < k \<and> k < length dates \<longrightarrow> dates ! k \<noteq> dates ! j"
  shows "((\<exists>v \<in> set data. \<exists>e. cast v = Inl e) \<longrightarrow>
            (\<exists>e. date_grid cast dates data flip dt = Inl e)) \<and>
         ((\<forall>v \<in> set data. \<exists>c. cast v = Inr c) \<longrightarrow>
            (\<exists>g c. date_grid cast dates data flip dt = Inr g \<and> cast (data ! j) = Inr c \<and>
                   cell_at flip g (grid_row dates (dates ! i)) (grid_col (dates ! i)) = c))"
proof (intro conjI impI)
  have ne: "dates \<noteq> []"
    using assms(4) by auto
  {
    assume "\<exists>v \<in> set data. \<exists>e. cast v = Inl e"
    then obtain v e where v: "v \<in> set data" and e: "cast v = Inl e"
      by blast
    show "\<exists>e. date_grid cast dates data flip dt = Inl e"
      by (rule date_grid_unconvertible [where cast = cast and v = v, OF ne v e])
  next
    assume conv: "\<forall>v \<in> set data. \<exists>c. cast v = Inr c"
    obtain g c where g: "date_grid cast dates data flip dt = Inr g"
      and c: "cast (data ! j) = Inr c"
      and cell: "cell_at flip g (grid_row dates (dates ! j)) (grid_col (dates ! j)) = c"
      using last_occurrence_converted [OF ne assms(1,2,4,6) conv, of flip dt] by (elim exE conjE)
    have "cell_at flip g (grid_row dates (dates ! i)) (grid_col (dates ! i)) = c"
      using cell by (simp only: assms(5))
    then show "\<exists>g c. date_grid cast dates data flip dt = Inr g \<and> cast (data ! j) = Inr c \<and>
                     cell_at flip g (grid_row dates (dates ! i)) (grid_col (dates ! i)) = c"
      using g c by blast
  }
qed

theorem duplicate_dates_last_write_wins_witness:
  "date_grid astype_object
     [\<lparr>year = 2021, month = 1, day = 1\<rparr>, \<lparr>year = 2021, month = 1, day = 1\<rparr>]
     [''a'', ''b''] False Object =
     Inr [[PyNone, PyNone, PyNone, PyNone, Val ''b'', PyNone, PyNone]] \<and>
   cell_at False [[PyNone, PyNone, PyNone, PyNone, Val ''b'', PyNone, PyNone]] 0 4 = Val ''b''"
proof -
  let ?D = "[\<lparr>year = 2021, month = 1, day = 1\<rparr>, \<lparr>year = 2021, month = 1, day = 1\<rparr>]"
  let ?G = "[[PyNone, PyNone, PyNone, PyNone, Val ''b'', PyNone, PyNone]] :: string cell list list"
  have len: "length [''a'', ''b''] = length ?D" by simp
  have valid: "\<forall>d \<in> set ?D. valid_date d" by code_simp
  have ij: "(0 :: nat) < 1" by simp
  have j: "1 < length ?D" by simp
  have dup: "?D ! 0 = ?D ! 1" by simp
  have last: "\<forall>k. 1 < k \<and> k < length ?D \<longrightarrow> ?D ! k \<noteq> ?D ! 1" by simp
  have conv: "\<forall>v \<in> set [''a'', ''b'']. \<exists>c. astype_object v = Inr c"
    by (simp add: astype_object_def)
  have g: "date_grid astype_object ?D [''a'', ''b''] False Object = Inr ?G"
    by code_simp
  have r: "grid_row ?D (?D ! 0) = 0" by code_simp
  have k: "grid_col (?D ! 0) = 4" by code_simp
  obtain g' c where g': "date_grid astype_object ?D [''a'', ''b''] False Object = Inr g'"
    and cc: "astype_object ([''a'', ''b''] ! 1) = Inr c"
    and c: "cell_at False g' (grid_row ?D (?D ! 0)) (grid_col (?D ! 0)) = c"
    using duplicate_dates_last_write_wins [OF len valid ij j dup last, of astype_object False Object,
        THEN conjunct2, THEN mp, OF conv]
    by (elim exE conjE)
  have "g' = ?G"
    using g g' by simp
  moreover have "c = Val ''b''"
    using cc by (simp add: astype_object_def)
  ultimately show ?thesis
    using c g r k by simp
qed

theorem duplicate_dates_last_write_wins_counterexample:
  "date_grid float64_of_int
     [\<lparr>year = 2021, month = 1, day = 1\<rparr>, \<lparr>year = 2021, month = 1, day = 1\<rparr>]
     [5, 2 ^ 53 + 1] False Float64 =
     Inr [[NaN, NaN, NaN, NaN, Val 9007199254740992, NaN, NaN]] \<and>
   [[NaN, NaN, NaN, NaN, Val 9007199254740992, NaN, NaN]] ! 0 ! 4
     \<noteq> Val ([5 :: int, 2 ^ 53 + 1] ! 1)"
  by code_simp

text \<open>
  C5: the row of the grid in which the value of a date is stored is decided by the (ISO
  year, ISO week) pair of the date. The values of two dates of the input are stored in the
  rows of the returned grid that \<open>week_coords\<close> gives, both below the number of rows, and
  the two rows are the same exactly when the pairs are equal, so that equal week numbers of
  different ISO years are kept apart. (With \<open>flip\<close> the rows are the columns.)
\<close>

theorem rows_by_iso_year_and_week:
  assumes "length data = length dates" "\<forall>d \<in> set dates. valid_date d"
    and "\<forall>v \<in> set data. \<exists>c. cast v = Inr c"
    and "i < length dates" "\<forall>k. i < k \<and> k < length dates \<longrightarrow> dates ! k \<noteq> dates ! i"
    and "j < length dates" "\<forall>k. j < k \<and> k < length dates \<longrightarrow> dates ! k \<noteq> dates ! j"
  shows "\<exists>g wc ci cj.
           date_grid cast dates data flip dt = Inr g \<and> week_coords dates = Inr wc \<and>
           length wc = length dates \<and>
           cast (data ! i) = Inr ci \<and> cast (data ! j) = Inr cj \<and>
           0 \<le> wc ! i \<and> nat (wc ! i) < card (iso_week ` set dates) \<and>
           0 \<le> wc ! j \<and> nat (wc ! j) < card (iso_week ` set dates) \<and>
           (if flip then snd (nd_shape g) else length g) = card (iso_week ` set dates) \<and>
           cell_at flip g (nat (wc ! i)) (grid_col (dates ! i)) = ci \<and>
           cell_at flip g (nat (wc ! j)) (grid_col (dates ! j)) = cj \<and>
           (wc ! i = wc ! j \<longleftrightarrow> iso_week (dates ! i) = iso_week (dates ! j))"
proof -
  have ne: "dates \<noteq> []"
    using assms(4) by auto
  obtain g ci where g: "date_grid cast dates data flip dt = Inr g"
    and ci: "cast (data ! i) = Inr ci"
    and celli: "cell_at flip g (grid_row dates (dates ! i)) (grid_col (dates ! i)) = ci"
    using last_occurrence_converted [OF ne assms(1,2,4,5,3), of flip dt] by (elim exE conjE)
  obtain g' cj where g': "date_grid cast dates data flip dt = Inr g'"
    and cj: "cast (data ! j) = Inr cj"
    and cellj: "cell_at flip g' (grid_row dates (dates ! j)) (grid_col (dates ! j)) = cj"
    using last_occurrence_converted [OF ne assms(1,2,6,7,3), of flip dt] by (elim exE conjE)
  have same: "g' = g"
    using g g' by simp
  let ?wc = "map (\<lambda>d. int (grid_row dates d)) dates"
  have wc: "week_coords dates = Inr ?wc"
    by (rule week_coords_eq)
  have wi: "?wc ! i = int (grid_row dates (dates ! i))" and wj: "?wc ! j = int (grid_row dates (dates ! j))"
    using assms(4,6) by simp_all
  have ri: "grid_row dates (dates ! i) < card (iso_week ` set dates)"
    and rj: "grid_row dates (dates ! j) < card (iso_week ` set dates)"
    using assms(4,6) by (simp_all add: grid_row_less)
  have iff: "grid_row dates (dates ! i) = grid_row dates (dates ! j) \<longleftrightarrow>
             iso_week (dates ! i) = iso_week (dates ! j)"
    using assms(4) by (intro grid_row_eq_iff) simp
  have dims: "(if flip then snd (nd_shape g) else length g) = card (iso_week ` set dates)"
    by (rule date_grid_dims [OF g])
  show ?thesis
    using g wc ci cj celli cellj same wi wj ri rj iff dims
    by (intro exI [of _ g] exI [of _ ?wc] exI [of _ ci] exI [of _ cj]) simp
qed

theorem rows_by_iso_year_and_week_witness:
  "isocalendar \<lparr>year = 2018, month = 12, day = 31\<rparr> = (2019, 1, 1) \<and>
   isocalendar \<lparr>year = 2019, month = 1, day = 1\<rparr> = (2019, 1, 2) \<and>
   isocalendar \<lparr>year = 2020, month = 1, day = 1\<rparr> = (2020, 1, 3) \<and>
   week_coords [\<lparr>year = 2018, month = 12, day = 31\<rparr>, \<lparr>year = 2019, month = 1, day = 1\<rparr>,
                \<lparr>year = 2020, month = 1, day = 1\<rparr>] = Inr [0, 0, 1] \<and>
   date_grid float64_of_int
     [\<lparr>year = 2018, month = 12, day = 31\<rparr>, \<lparr>year = 2019, month = 1, day = 1\<rparr>,
      \<lparr>year = 2020, month = 1, day = 1\<rparr>] [1, 2, 3] False Float64 =
     Inr [[Val 1, Val 2, NaN, NaN, NaN, NaN, NaN], [NaN, NaN, Val 3, NaN, NaN, NaN, NaN]] \<and>
   (\<exists>g wc. date_grid float64_of_int
              [\<lparr>year = 2018, month = 12, day = 31\<rparr>, \<lparr>year = 2019, month = 1, day = 1\<rparr>,
               \<lparr>year = 2020, month = 1, day = 1\<rparr>] [1, 2, 3] False Float64 = Inr g \<and>
            week_coords [\<lparr>year = 2018, month = 12, day = 31\<rparr>, \<lparr>year = 2019, month = 1, day = 1\<rparr>,
                         \<lparr>year = 2020, month = 1, day = 1\<rparr>] = Inr wc \<and>
            wc ! 1 \<noteq> wc ! 2 \<and> nat (wc ! 1) < length g \<and> nat (wc ! 2) < length g)"
proof -
  let ?D = "[\<lparr>year = 2018, month = 12, day = 31\<rparr>, \<lparr>year = 2019, month = 1, day = 1\<rparr>,
             \<lparr>year = 2020, month = 1, day = 1\<rparr>]"
  have len: "length [1, 2, 3 :: int] = length ?D" by simp
  have valid: "\<forall>d \<in> set ?D. valid_date d" by code_simp
  have conv: "\<forall>v \<in> set [1, 2, 3]. \<exists>c. float64_of_int v = Inr c"
    by (simp add: float64_of_int_exact)
  have i: "1 < length ?D" and j: "2 < length ?D" by simp_all
  have li: "\<forall>k. 1 < k \<and> k < length ?D \<longrightarrow> ?D ! k \<noteq> ?D ! 1"
    by (auto simp: less_Suc_eq numeral_3_eq_3)
  have lj: "\<forall>k. 2 < k \<and> k < length ?D \<longrightarrow> ?D ! k \<noteq> ?D ! 2"
    by simp
  have a: "isocalendar \<lparr>year = 2018, month = 12, day = 31\<rparr> = (2019, 1, 1)" by code_simp
  have b: "isocalendar \<lparr>year = 2019, month = 1, day = 1\<rparr> = (2019, 1, 2)" by code_simp
  have c: "isocalendar \<lparr>year = 2020, month = 1, day = 1\<rparr> = (2020, 1, 3)" by code_simp
  have wc: "week_coords ?D = Inr [0, 0, 1]" by code_simp
  have g: "date_grid float64_of_int ?D [1, 2, 3] False Float64 =
             Inr [[Val 1, Val 2, NaN, NaN, NaN, NaN, NaN], [NaN, NaN, Val 3, NaN, NaN, NaN, NaN]]"
    by code_simp
  have diff: "iso_week (?D ! 1) \<noteq> iso_week (?D ! 2)"
    using b c by (simp add: iso_week_def)
  obtain g' wc' where g': "date_grid float64_of_int ?D [1, 2, 3] False Float64 = Inr g'"
    and wc': "week_coords ?D = Inr wc'"
    and b1: "nat (wc' ! 1) < card (iso_week ` set ?D)" and b2: "nat (wc' ! 2) < card (iso_week ` set ?D)"
    and rows: "(if False then snd (nd_shape g') else length g') = card (iso_week ` set ?D)"
    and iff: "wc' ! 1 = wc' ! 2 \<longleftrightarrow> iso_week (?D ! 1) = iso_week (?D ! 2)"
    using rows_by_iso_year_and_week [OF len valid conv i li j lj, of False Float64]
    by (elim exE conjE)
  have "wc' ! 1 \<noteq> wc' ! 2"
    using iff diff by simp
  moreover have "nat (wc' ! 1) < length g'" "nat (wc' ! 2) < length g'"
    using b1 b2 rows by simp_all
  ultimately have "\<exists>g wc. date_grid float64_of_int ?D [1, 2, 3] False Float64 = Inr g \<and>
      week_coords ?D = Inr wc \<and> wc ! 1 \<noteq> wc ! 2 \<and> nat (wc ! 1) < length g \<and> nat (wc ! 2) < length g"
    using g' wc' by blast
  then show ?thesis
    using a b c wc g by simp
qed

text \<open>
  C6, the behaviour of the code: \<open>add_date_label\<close> never draws a label. For an empty date
  list the grid builder raises \<open>IndexError\<close>; otherwise the first cell is read by
  subscripting the function \<open>date_grid\<close> instead of the array \<open>day_grid\<close>, which raises
  \<open>TypeError\<close>, and the handler for \<open>ValueError\<close> does not catch it.
\<close>

theorem add_date_label_raises:
  "add_date_label [] flip = Inl IndexError \<and> add_date_label (d # ds) flip = Inl TypeError"
  using add_date_label_nonempty [of "d # ds" flip]
  by (simp add: add_date_label_def date_grid_def)

text \<open>
  C4: for a non-empty list of valid dates \<open>add_month_label\<close> sets one tick per distinct
  (year, month) pair of the input, in ascending order, on the weeks axis (y without \<open>flip\<close>,
  x with \<open>flip\<close>); the position of the tick is \<open>(min + max) / 2\<close> for the smallest and the
  largest week coordinate of the dates of that month, and its text is the abbreviated name
  of the month.
\<close>

theorem month_label_positions:
  assumes "dates \<noteq> []" "\<forall>d \<in> set dates. valid_date d"
  shows "add_month_label dates flip =
           Inr \<lparr>tick_axis = (if flip then XAxis else YAxis),
                ticks = map (\<lambda>m. (of_nat (Min (set (group_rows dates (\<lambda>d. (year d, month d)) m))) +
                                   of_nat (Max (set (group_rows dates (\<lambda>d. (year d, month d)) m)))) / 2)
                          (sort (remdups (month_years dates))),
                ticklabels = map (\<lambda>m. month_abbr ! nat (snd m)) (sort (remdups (month_years dates)))\<rparr>"
  by (simp add: add_month_label_def month_locs_eq [OF assms] comp_def)

theorem month_label_positions_witness:
  "[\<lparr>year = 2020, month = 12, day = 7\<rparr>, \<lparr>year = 2020, month = 12, day = 14\<rparr>,
    \<lparr>year = 2020, month = 12, day = 21\<rparr>, \<lparr>year = 2021, month = 1, day = 4\<rparr>,
    \<lparr>year = 2021, month = 1, day = 11\<rparr>, \<lparr>year = 2021, month = 1, day = 18\<rparr>] \<noteq> [] \<and>
   group_rows [\<lparr>year = 2020, month = 12, day = 7\<rparr>, \<lparr>year = 2020, month = 12, day = 14\<rparr>,
    \<lparr>year = 2020, month = 12, day = 21\<rparr>, \<lparr>year = 2021, month = 1, day = 4\<rparr>,
    \<lparr>year = 2021, month = 1, day = 11\<rparr>, \<lparr>year = 2021, month = 1, day = 18\<rparr>]
     (\<lambda>d. (year d, month d)) (2021, 1) = [3, 4, 5] \<and>
   add_month_label [\<lparr>year = 2020, month = 12, day = 7\<rparr>, \<lparr>year = 2020, month = 12, day = 14\<rparr>,
    \<lparr>year = 2020, month = 12, day = 21\<rparr>, \<lparr>year = 2021, month = 1, day = 4\<rparr>,
    \<lparr>year = 2021, month = 1, day = 11\<rparr>, \<lparr>year = 2021, month = 1, day = 18\<rparr>] False =
     Inr \<lparr>tick_axis = YAxis, ticks = [1, 4], ticklabels = [''Dec'', ''Jan'']\<rparr>"
proof -
  let ?D = "[\<lparr>year = 2020, month = 12, day = 7\<rparr>, \<lparr>year = 2020, month = 12, day = 14\<rparr>,
    \<lparr>year = 2020, month = 12, day = 21\<rparr>, \<lparr>year = 2021, month = 1, day = 4\<rparr>,
    \<lparr>year = 2021, month = 1, day = 11\<rparr>, \<lparr>year = 2021, month = 1, day = 18\<rparr>]"
  have ne: "?D \<noteq> []" by simp
  have valid: "\<forall>d \<in> set ?D. valid_date d" by code_simp
  have months: "sort (remdups (month_years ?D)) = [(2020, 12), (2021, 1)]" by code_simp
  have dec: "group_rows ?D (\<lambda>d. (year d, month d)) (2020, 12) = [0, 1, 2]" by code_simp
  have jan: "group_rows ?D (\<lambda>d. (year d, month d)) (2021, 1) = [3, 4, 5]" by code_simp
  have labels: "month_abbr ! nat 12 = ''Dec''" "month_abbr ! nat 1 = ''Jan''" by code_simp+
  show ?thesis
    using month_label_positions [OF ne valid, of False] months dec jan labels by simp
qed

text \<open>
  C10, as the code behaves: for every distinct year of the input \<open>add_year_label\<close> computes
  the position \<open>(min + max + 1) / 2\<close> from the smallest and the largest week coordinate of the
  dates of that year, half a cell more than the rule of the month labels, and annotates the
  year at that position divided by the number of weeks (an axes fraction).
\<close>

theorem year_label_positions:
  assumes "dates \<noteq> []" "\<forall>d \<in> set dates. valid_date d"
  shows "year_locs dates flip =
           Inr (map (\<lambda>y. (y, (of_nat (Min (set (group_rows dates year y))) +
                             of_nat (Max (set (group_rows dates year y))) + 1) / 2))
                  (sort (remdups (map year dates)))) \<and>
         add_year_label dates flip =
           Inr (map (\<lambda>y. if flip
                          then (y, (of_nat (Min (set (group_rows dates year y))) +
                                    of_nat (Max (set (group_rows dates year y))) + 1) / 2
                                   / of_nat (card (iso_week ` set dates)), 1)
                          else (y, 0, 1 - (of_nat (Min (set (group_rows dates year y))) +
                                           of_nat (Max (set (group_rows dates year y))) + 1) / 2
                                          / of_nat (card (iso_week ` set dates))))
                  (sort (remdups (map year dates))))"
proof -
  obtain g where g: "date_grid float64_of_field dates (map year dates) flip Float64 = Inr g"
    using date_grid_returns [OF assms(1) _ cast_each_field, of "map year dates"] by auto
  have locs: "collect_locs (year_loc g flip) (sort (remdups (map year dates))) =
          Inr (map (\<lambda>y. (y, (of_nat (Min (set (group_rows dates year y))) +
                            of_nat (Max (set (group_rows dates year y))) + 1) / 2))
                 (sort (remdups (map year dates))))"
    using year_locs_eq [OF assms, of flip] g by (simp add: year_locs_def)
  have dims: "(if flip then snd (nd_shape g) else length g) = card (iso_week ` set dates)"
    by (rule date_grid_dims [OF g])
  have "add_year_label dates flip =
          Inr (map (\<lambda>y. if flip
                         then (y, (of_nat (Min (set (group_rows dates year y))) +
                                   of_nat (Max (set (group_rows dates year y))) + 1) / 2
                                  / of_nat (card (iso_week ` set dates)), 1)
                         else (y, 0, 1 - (of_nat (Min (set (group_rows dates year y))) +
                                          of_nat (Max (set (group_rows dates year y))) + 1) / 2
                                         / of_nat (card (iso_week ` set dates))))
                 (sort (remdups (map year dates))))"
    using dims g locs by (cases flip) (simp_all add: add_year_label_def Let_def comp_def)
  then show ?thesis
    using year_locs_eq [OF assms, of flip] by simp
qed

theorem year_label_positions_witness:
  "[\<lparr>year = 2021, month = 1, day = 1\<rparr>, \<lparr>year = 2021, month = 1, day = 8\<rparr>,
    \<lparr>year = 2022, month = 2, day = 8\<rparr>] \<noteq> [] \<and>
   year_locs [\<lparr>year = 2021, month = 1, day = 1\<rparr>, \<lparr>year = 2021, month = 1, day = 8\<rparr>,
              \<lparr>year = 2022, month = 2, day = 8\<rparr>] False = Inr [(2021, 1), (2022, 5 / 2)]"
proof -
  let ?D = "[\<lparr>year = 2021, month = 1, day = 1\<rparr>, \<lparr>year = 2021, month = 1, day = 8\<rparr>,
             \<lparr>year = 2022, month = 2, day = 8\<rparr>]"
  have ne: "?D \<noteq> []" by simp
  have valid: "\<forall>d \<in> set ?D. valid_date d" by code_simp
  have years: "sort (remdups (map year ?D)) = [2021, 2022]" by code_simp
  have a: "group_rows ?D year 2021 = [0, 1]" by code_simp
  have b: "group_rows ?D year 2022 = [2]" by code_simp
  show ?thesis
    using year_label_positions [OF ne valid, of False] years a b by simp
qed

theorem year_label_positions_counterexample:
  "year_locs [\<lparr>year = 2021, month = 1, day = 1\<rparr>] False = Inr [(2021, 1 / 2)] \<and>
   group_rows [\<lparr>year = 2021, month = 1, day = 1\<rparr>] year 2021 = [0] \<and>
   (of_nat (Min (set [0 :: nat])) + of_nat (Max (set [0 :: nat]))) / 2 \<noteq> (1 / 2 :: rat)"
  by code_simp

end
